theory Spec2Isabelle
  imports Main "HOL-Library.Signed_Division"
begin

section \<open>The task contract\<close>

text \<open>
  The package \<open>task\<close> declares three error values; any other error a leaf task
  returns is identified by its message.
\<close>

datatype error = ErrUnsupportedRollback | ErrNoExecutor | ErrNoOutput | Err string

text \<open>
  Integer division by zero is a run-time panic in Go. The model keeps it as a value.
\<close>

datatype panic = DivideByZero

text \<open>
  Modelled from the spec: the declaration of \<open>StepDisplay\<close> is not part of the
  sources at hand. \<open>ComputeProgress\<close> reads the two fields \<open>prefix\<close> and
  \<open>progress\<close> (a label and a counter 0..100) of it.
\<close>

record StepDisplay =
  prefix :: string
  progress :: int

text \<open>
  \<open>Task\<close> is an interface: \<open>String\<close>, \<open>Execute\<close> and \<open>Rollback\<close>. A task is modelled
  by its three methods, as functions of the state \<open>'w\<close> of everything outside the
  composite that runs it (hosts, files, the fields of nested tasks), together with its
  dynamic type, which \<open>isDisplayTask\<close> and \<open>ComputeProgress\<close> inspect through type
  assertions. \<open>Execute\<close> and \<open>Rollback\<close> return the error (\<open>None\<close> for \<open>nil\<close>) and
  the new outside state; the methods of a child are taken to return.

  Modelled from the spec: the declaration of \<open>ParallelStepDisplay\<close> is not part of the
  sources at hand either; the code reads its fields \<open>prefix\<close> and \<open>inner\<close>, a
  \<open>Parallel\<close>.
\<close>

datatype 'w Task =
  Task (dyn: "'w dyn") (String: "'w \<Rightarrow> string")
       (Execute: "'w \<Rightarrow> error option \<times> 'w") (Rollback: "'w \<Rightarrow> error option \<times> 'w")
and 'w dyn =
    IsLeaf
  | IsSerial
  | IsParallel
  | IsStepDisplay StepDisplay
  | IsParallelStepDisplay (psd_prefix: string) (psd_inner: "'w Parallel")
and 'w Parallel =
  Parallel (par_ignoreError: bool) (par_hideDetailDisplay: bool) (par_inner: "'w Task list")

text \<open>
  The struct \<open>Serial\<close>. Go's \<open>int\<close> has 64 bits here; \<open>startedTasks\<close> grows by one for
  each child begun and \<open>Progress\<close> is computed from it, far from the bounds of the type,
  so both are modelled by \<open>int\<close>, and Go's division, which truncates towards zero, by
  \<open>sdiv\<close>.
\<close>

record 'w Serial =
  ignoreError :: bool
  hideDetailDisplay :: bool
  inner :: "'w Task list"
  startedTasks :: int
  Progress :: int
  CurTaskSteps :: "string list"
  Steps :: "string list"

definition isDisplayTask :: "'w Task \<Rightarrow> bool" where
  "isDisplayTask t =
     (case dyn t of
        IsSerial \<Rightarrow> True
      | IsParallel \<Rightarrow> True
      | IsStepDisplay _ \<Rightarrow> True
      | IsParallelStepDisplay _ _ \<Rightarrow> True
      | IsLeaf \<Rightarrow> False)"

section \<open>What a run does to its surroundings\<close>

text \<open>
  The effects of a run, in the order in which they happen: a line written with
  \<open>log.Infof\<close>, the two events published on the context's event sink around a child's
  \<open>Execute\<close>, and every assignment to the exported field \<open>Progress\<close>, which the
  manager reads while the run is under way.
\<close>

datatype 'w action =
    Infof string
  | SetProgress int
  | PublishTaskBegin "'w Task"
  | PublishTaskFinish "'w Task" "error option"

record 'w finished =
  err :: "error option"
  serial :: "'w Serial"
  world :: 'w
  trace :: "'w action list"

section \<open>Strings\<close>

text \<open>
  \<open>strings.Split(s, "\n")\<close>: the pieces of \<open>s\<close> between line feeds; there is always at
  least one piece.
\<close>

fun Split_lines :: "string \<Rightarrow> string list" where
  "Split_lines [] = [[]]"
| "Split_lines (c # cs) =
     (if c = CHR 0x0A then [] # Split_lines cs
      else (case Split_lines cs of
              [] \<Rightarrow> [[c]]
            | l # ls \<Rightarrow> (c # l) # ls))"

text \<open>
  \<open>strings.TrimSpace\<close>, on the bytes of the string: the white space of ASCII (tab, line
  feed, vertical tab, form feed, carriage return, space) is cut from both ends. White
  space outside ASCII, which Go would also cut after decoding UTF-8, is not recognised
  here; the general statements below do not depend on which lines are blank.
\<close>

definition isSpace :: "char \<Rightarrow> bool" where
  "isSpace c = (c = CHR 0x09 \<or> c = CHR 0x0A \<or> c = CHR 0x0B \<or> c = CHR 0x0C
                \<or> c = CHR 0x0D \<or> c = CHR 0x20)"

definition TrimSpace :: "string \<Rightarrow> string" where
  "TrimSpace l = rev (dropWhile isSpace (rev (dropWhile isSpace l)))"

section \<open>Serial\<close>

text \<open>
  \<open>saveSteps\<close> takes the description of the current task, here \<open>String curTask w\<close> in
  the outside state \<open>w\<close> of the moment, and tags each of its non-blank lines.
\<close>

definition tag_line :: "string \<Rightarrow> string \<Rightarrow> string" where
  "tag_line stepStatus l = ''- '' @ l @ '' ... '' @ stepStatus"

definition saveSteps :: "'w Serial \<Rightarrow> 'w \<Rightarrow> 'w Task \<Rightarrow> string \<Rightarrow> 'w Serial" where
  "saveSteps s w curTask stepStatus =
     (let curTaskSteps = Split_lines (String curTask w);
          s1 = s\<lparr>CurTaskSteps := []\<rparr>;
          s2 = foldl (\<lambda>s' l. if TrimSpace l \<noteq> ''''
                               then s'\<lparr>CurTaskSteps := CurTaskSteps s' @ [tag_line stepStatus l]\<rparr>
                               else s') s1 curTaskSteps
      in if stepStatus = ''Done''
         then (s2\<lparr>Steps := Steps s2 @ CurTaskSteps s2\<rparr>)\<lparr>CurTaskSteps := []\<rparr>
         else s2)"

definition go_div :: "int \<Rightarrow> int \<Rightarrow> panic + int" where
  "go_div a b = (if b = 0 then Inl DivideByZero else Inr (a sdiv b))"

text \<open>
  The loop of \<open>Serial.Execute\<close> over the children that remain, followed by the two
  statements after the loop. \<open>s\<close> is the receiver, \<open>w\<close> the outside state; the actions of
  the run are returned in order.
\<close>

fun Execute_loop :: "'w Task list \<Rightarrow> 'w Serial \<Rightarrow> 'w \<Rightarrow> panic + 'w finished" where
  "Execute_loop [] s w =
     Inr \<lparr>err = None, serial = s\<lparr>Progress := 100\<rparr>, world = w, trace = [SetProgress 100]\<rparr>"
| "Execute_loop (t # ts) s w =
     (let a1 = (if \<not> isDisplayTask t \<and> \<not> hideDetailDisplay s
                then [Infof (''+ [ Serial ] - '' @ String t w)] else [])
      in case go_div 100 (int (length (inner s))) of
           Inl p \<Rightarrow> Inl p
         | Inr q \<Rightarrow>
             (let oneTaskPercentHalf = (if q sdiv 2 = 0 then 1 else q sdiv 2)
              in case go_div (startedTasks s * 100) (int (length (inner s))) of
                   Inl p \<Rightarrow> Inl p
                 | Inr d \<Rightarrow>
                     (let s1 = s\<lparr>Progress := d + oneTaskPercentHalf\<rparr>;
                          s2 = s1\<lparr>startedTasks := startedTasks s1 + 1\<rparr>;
                          s3 = saveSteps s2 w t ''Starting'';
                          (e, w') = Execute t w;
                          a2 = a1 @ [SetProgress (Progress s1), PublishTaskBegin t,
                                     PublishTaskFinish t e]
                      in if e \<noteq> None \<and> \<not> ignoreError s3
                         then Inr \<lparr>err = e, serial = saveSteps s3 w' t ''Error'', world = w',
                                   trace = a2\<rparr>
                         else (case Execute_loop ts s3 w' of
                                 Inl p \<Rightarrow> Inl p
                               | Inr r \<Rightarrow> Inr (r\<lparr>trace := a2 @ trace r\<rparr>)))))"

definition Serial_Execute :: "'w Serial \<Rightarrow> 'w \<Rightarrow> panic + 'w finished" where
  "Serial_Execute s w = Execute_loop (inner s) s w"

text \<open>
  \<open>Serial.Rollback\<close>: the index \<open>i\<close> of the Go loop runs from \<open>len(s.inner) - 1\<close> down
  to \<open>0\<close>; the loop below is at \<open>Suc i\<close> when the Go loop is at \<open>i\<close>, and at \<open>0\<close> when
  the Go loop has ended. The index is always within the list.
\<close>

fun Rollback_loop :: "'w Task list \<Rightarrow> nat \<Rightarrow> 'w \<Rightarrow> error option \<times> 'w" where
  "Rollback_loop ts 0 w = (None, w)"
| "Rollback_loop ts (Suc i) w =
     (case Rollback (ts ! i) w of
        (Some e, w') \<Rightarrow> (Some e, w')
      | (None, w') \<Rightarrow> Rollback_loop ts i w')"

definition Serial_Rollback :: "'w Serial \<Rightarrow> 'w \<Rightarrow> error option \<times> 'w" where
  "Serial_Rollback s w = Rollback_loop (inner s) (length (inner s)) w"

subsection \<open>ComputeProgress\<close>

text \<open>The verb \<open>%d\<close> of \<open>fmt.Sprintf\<close>: an integer in decimal.\<close>

fun decimal :: "nat \<Rightarrow> string" where
  "decimal n =
     (if n < 10 then [char_of (48 + n)]
      else decimal (n div 10) @ [char_of (48 + n mod 10)])"

definition format_d :: "int \<Rightarrow> string" where
  "format_d i = (if i < 0 then CHR ''-'' # decimal (nat (- i)) else decimal (nat i))"

text \<open>
  The two counters that the closure \<open>handleStepDisplay\<close> captures and updates.
\<close>

record counters =
  allStepsCount :: int
  finishedSteps :: int

definition handleStepDisplay :: "StepDisplay \<Rightarrow> counters \<Rightarrow> string \<times> counters" where
  "handleStepDisplay sd c =
     (let c1 = c\<lparr>allStepsCount := allStepsCount c + 1\<rparr>;
          c2 = (if progress sd = 100 then c1\<lparr>finishedSteps := finishedSteps c1 + 1\<rparr> else c1)
      in if progress sd > 0
         then (prefix sd @ '' ... '' @ format_d (progress sd) @ ''%'', c2)
         else ('''', c2))"

text \<open>The inner loop, over the children of the \<open>Parallel\<close> inside a \<open>ParallelStepDisplay\<close>.\<close>

fun psd_loop :: "'w Task list \<Rightarrow> string list \<Rightarrow> counters \<Rightarrow> string list \<times> counters" where
  "psd_loop [] steps c = (steps, c)"
| "psd_loop (t # ts) steps c =
     (case dyn t of
        IsStepDisplay sd \<Rightarrow>
          (let (str, c') = handleStepDisplay sd c
           in psd_loop ts (if str \<noteq> '''' then steps @ [str] else steps) c')
      | _ \<Rightarrow> psd_loop ts steps c)"

text \<open>The outer loop, over the children of the Serial: two type assertions in turn.\<close>

fun ComputeProgress_loop ::
  "'w Task list \<Rightarrow> string list \<Rightarrow> counters \<Rightarrow> string list \<times> counters" where
  "ComputeProgress_loop [] stepsStatus c = (stepsStatus, c)"
| "ComputeProgress_loop (step # rest) stepsStatus c =
     (let (stepsStatus1, c1) =
            (case dyn step of
               IsStepDisplay sd \<Rightarrow>
                 (let (str, c') = handleStepDisplay sd c
                  in (if str \<noteq> '''' then stepsStatus @ [str] else stepsStatus, c'))
             | _ \<Rightarrow> (stepsStatus, c));
          (stepsStatus2, c2) =
            (case dyn step of
               IsParallelStepDisplay pre par \<Rightarrow>
                 (let (steps, c') = psd_loop (par_inner par) [] c1
                  in (if length steps > 0 then (stepsStatus1 @ [pre]) @ steps else stepsStatus1, c'))
             | _ \<Rightarrow> (stepsStatus1, c1))
      in ComputeProgress_loop rest stepsStatus2 c2)"

text \<open>The division is guarded by the test \<open>allStepsCount > 0\<close>.\<close>

definition ComputeProgress :: "'w Serial \<Rightarrow> string list \<times> int" where
  "ComputeProgress s =
     (let (stepsStatus, c) =
            ComputeProgress_loop (inner s) [] \<lparr>allStepsCount = 0, finishedSteps = 0\<rparr>;
          totalProgress = (if allStepsCount c > 0
                           then finishedSteps c * 100 sdiv allStepsCount c else 0)
      in (stepsStatus, totalProgress))"

section \<open>Parallel\<close>

text \<open>
  \<open>Parallel.Execute\<close> and \<open>Parallel.Rollback\<close> start one goroutine per child and wait
  for all of them. They are modelled as a machine with one thread for the caller and
  one per child, which a scheduler advances one step at a time; a run is the list of
  the threads the scheduler picked. A step is one statement of the Go code, and a
  thread that is blocked (in \<open>mu.Lock\<close> while the mutex is held, in \<open>wg.Wait\<close> while
  the counter is not zero) or has finished cannot be picked. Both methods have the same
  shape; they differ in the method of the child that a worker calls, in the log line and
  the two events that only \<open>Execute\<close> emits, and in the returned value.

  The call of a child's method is one step, on the outside state shared by all threads.
  The context that \<open>checkpoint.NewContext\<close> forks for each goroutine carries nothing
  that the two methods read, and is left out.
\<close>

datatype call = CallExecute | CallRollback

text \<open>
  Where a worker is: not yet started by \<open>go\<close>; before the log line; before
  \<open>PublishTaskBegin\<close>; before the call of the child; before \<open>PublishTaskFinish\<close>; before
  the test \<open>err != nil\<close>; before \<open>mu.Lock()\<close>; inside the critical section, before the
  test and assignment of \<open>firstError\<close>; before \<open>mu.Unlock()\<close>; before the deferred
  \<open>wg.Done()\<close>; returned.
\<close>

datatype wpc =
    NotStarted | AtLog | AtBegin | AtCall | AtFinish | AtCheck | AtLock | AtStore
  | AtUnlock | AtDone | Exited

record worker =
  pc :: wpc
  werr :: "error option"

text \<open>
  Where the caller is: at \<open>wg.Add(1)\<close> of the iteration for child \<open>i\<close> (or at the end
  of the loop, when \<open>i\<close> is the number of children); at the \<open>go\<close> statement for child
  \<open>i\<close>; in \<open>wg.Wait()\<close>; returned, with the value returned.
\<close>

datatype mpc = AtAdd nat | AtGo nat | AtWait | Returned "error option"

text \<open>
  The state of a run. \<open>calls\<close> and \<open>stores\<close> are history only, read by no step: the
  children in the order in which their method was called, and the workers in the order
  in which they went through the critical section.
\<close>

record 'w pstate =
  mainpc :: mpc
  workers :: "worker list"
  wg :: int
  mu :: "nat option"
  firstError :: "error option"
  shared :: 'w
  effects :: "'w action list"
  calls :: "nat list"
  stores :: "nat list"

datatype thread = Main | Worker nat

definition start :: "'w Parallel \<Rightarrow> 'w \<Rightarrow> 'w pstate" where
  "start pt w =
     \<lparr>mainpc = AtAdd 0,
      workers = replicate (length (par_inner pt)) \<lparr>pc = NotStarted, werr = None\<rparr>,
      wg = 0, mu = None, firstError = None, shared = w, effects = [], calls = [],
      stores = []\<rparr>"

definition invoke :: "call \<Rightarrow> 'w Task \<Rightarrow> 'w \<Rightarrow> error option \<times> 'w" where
  "invoke m t = (case m of CallExecute \<Rightarrow> Execute t | CallRollback \<Rightarrow> Rollback t)"

definition goto :: "nat \<Rightarrow> wpc \<Rightarrow> 'w pstate \<Rightarrow> 'w pstate" where
  "goto j l c = c\<lparr>workers := (workers c)[j := (workers c ! j)\<lparr>pc := l\<rparr>]\<rparr>"

definition main_step :: "call \<Rightarrow> 'w Parallel \<Rightarrow> 'w pstate \<Rightarrow> 'w pstate option" where
  "main_step m pt c =
     (case mainpc c of
        AtAdd i \<Rightarrow>
          if i < length (par_inner pt)
          then Some (c\<lparr>wg := wg c + 1, mainpc := AtGo i\<rparr>)
          else Some (c\<lparr>mainpc := AtWait\<rparr>)
      | AtGo i \<Rightarrow>
          Some ((goto i (case m of CallExecute \<Rightarrow> AtLog | CallRollback \<Rightarrow> AtCall) c)
                  \<lparr>mainpc := AtAdd (i + 1)\<rparr>)
      | AtWait \<Rightarrow>
          if wg c = 0
          then Some (c\<lparr>mainpc := Returned
                        (case m of
                           CallExecute \<Rightarrow> if par_ignoreError pt then None else firstError c
                         | CallRollback \<Rightarrow> firstError c)\<rparr>)
          else None
      | Returned r \<Rightarrow> None)"

definition worker_step :: "call \<Rightarrow> 'w Parallel \<Rightarrow> nat \<Rightarrow> 'w pstate \<Rightarrow> 'w pstate option" where
  "worker_step m pt j c =
     (if j < length (workers c) then
        (let t = par_inner pt ! j; me = workers c ! j in
         case pc me of
           NotStarted \<Rightarrow> None
         | AtLog \<Rightarrow>
             Some (goto j AtBegin
               (c\<lparr>effects := effects c @
                     (if \<not> isDisplayTask t \<and> \<not> par_hideDetailDisplay pt
                      then [Infof (''+ [Parallel] - '' @ String t (shared c))] else [])\<rparr>))
         | AtBegin \<Rightarrow>
             Some (goto j AtCall (c\<lparr>effects := effects c @ [PublishTaskBegin t]\<rparr>))
         | AtCall \<Rightarrow>
             (let (e, w') = invoke m t (shared c) in
              Some (c\<lparr>workers := (workers c)
                           [j := \<lparr>pc = (case m of CallExecute \<Rightarrow> AtFinish
                                               | CallRollback \<Rightarrow> AtCheck),
                                  werr = e\<rparr>],
                       shared := w', calls := calls c @ [j]\<rparr>))
         | AtFinish \<Rightarrow>
             Some (goto j AtCheck
               (c\<lparr>effects := effects c @ [PublishTaskFinish t (werr me)]\<rparr>))
         | AtCheck \<Rightarrow>
             Some (goto j (if werr me \<noteq> None then AtLock else AtDone) c)
         | AtLock \<Rightarrow>
             if mu c = None then Some (goto j AtStore (c\<lparr>mu := Some j\<rparr>)) else None
         | AtStore \<Rightarrow>
             Some (goto j AtUnlock
               (c\<lparr>firstError := (if firstError c = None then werr me else firstError c),
                  stores := stores c @ [j]\<rparr>))
         | AtUnlock \<Rightarrow> Some (goto j AtDone (c\<lparr>mu := None\<rparr>))
         | AtDone \<Rightarrow> Some (goto j Exited (c\<lparr>wg := wg c - 1\<rparr>))
         | Exited \<Rightarrow> None)
      else None)"

definition step :: "call \<Rightarrow> 'w Parallel \<Rightarrow> thread \<Rightarrow> 'w pstate \<Rightarrow> 'w pstate option" where
  "step m pt th c =
     (case th of Main \<Rightarrow> main_step m pt c | Worker j \<Rightarrow> worker_step m pt j c)"

fun run :: "call \<Rightarrow> 'w Parallel \<Rightarrow> thread list \<Rightarrow> 'w pstate \<Rightarrow> 'w pstate option" where
  "run m pt [] c = Some c"
| "run m pt (th # ths) c =
     (case step m pt th c of None \<Rightarrow> None | Some c' \<Rightarrow> run m pt ths c')"

text \<open>
  \<open>Parallel.Execute\<close> and \<open>Parallel.Rollback\<close> under a schedule: the state the schedule
  leads to, or \<open>None\<close> when the schedule picks a thread that cannot take a step.
\<close>

definition Parallel_Execute :: "'w Parallel \<Rightarrow> 'w \<Rightarrow> thread list \<Rightarrow> 'w pstate option" where
  "Parallel_Execute pt w sched = run CallExecute pt sched (start pt w)"

definition Parallel_Rollback :: "'w Parallel \<Rightarrow> 'w \<Rightarrow> thread list \<Rightarrow> 'w pstate option" where
  "Parallel_Rollback pt w sched = run CallRollback pt sched (start pt w)"

section \<open>The vocabulary of the claims\<close>

subsection \<open>Serial\<close>

text \<open>
  The status lines of a description: its non-blank lines, each tagged with the status.
\<close>

definition step_lines :: "string \<Rightarrow> string \<Rightarrow> string list" where
  "step_lines stepStatus d =
     map (tag_line stepStatus) (filter (\<lambda>l. TrimSpace l \<noteq> '''') (Split_lines d))"

text \<open>
  The provisional progress as the specification writes it:
  \<open>half_step = max(1, (100 / N) / 2)\<close> and \<open>progress = started * 100 / N + half_step\<close>,
  in Go's integer division.
\<close>

definition half_step :: "int \<Rightarrow> int" where
  "half_step n = max 1 ((100 sdiv n) sdiv 2)"

definition provisional :: "int \<Rightarrow> int \<Rightarrow> int" where
  "provisional started n = started * 100 sdiv n + half_step n"

text \<open>
  Children that run one after the other, each in the outside state the one before left:
  whether all of them succeed, the state they leave, and what each returns.
\<close>

fun all_succeed :: "'w Task list \<Rightarrow> 'w \<Rightarrow> bool" where
  "all_succeed [] w = True"
| "all_succeed (t # ts) w = (fst (Execute t w) = None \<and> all_succeed ts (snd (Execute t w)))"

fun run_children :: "'w Task list \<Rightarrow> 'w \<Rightarrow> 'w" where
  "run_children [] w = w"
| "run_children (t # ts) w = run_children ts (snd (Execute t w))"

fun outcomes :: "'w Task list \<Rightarrow> 'w \<Rightarrow> ('w Task \<times> error option) list" where
  "outcomes [] w = []"
| "outcomes (t # ts) w = (t, fst (Execute t w)) # outcomes ts (snd (Execute t w))"

text \<open>
  What can be read off the actions of a run: the children for which a begin event was
  published, the finish events, the values assigned to \<open>Progress\<close>, and the
  assignments and begin events together, in their order.
\<close>

fun begun :: "'w action list \<Rightarrow> 'w Task list" where
  "begun [] = []"
| "begun (PublishTaskBegin t # as) = t # begun as"
| "begun (a # as) = begun as"

fun finishes :: "'w action list \<Rightarrow> ('w Task \<times> error option) list" where
  "finishes [] = []"
| "finishes (PublishTaskFinish t e # as) = (t, e) # finishes as"
| "finishes (a # as) = finishes as"

fun progress_writes :: "'w action list \<Rightarrow> int list" where
  "progress_writes [] = []"
| "progress_writes (SetProgress p # as) = p # progress_writes as"
| "progress_writes (a # as) = progress_writes as"

fun progress_and_begin :: "'w action list \<Rightarrow> 'w action list" where
  "progress_and_begin [] = []"
| "progress_and_begin (SetProgress p # as) = SetProgress p # progress_and_begin as"
| "progress_and_begin (PublishTaskBegin t # as) = PublishTaskBegin t # progress_and_begin as"
| "progress_and_begin (a # as) = progress_and_begin as"

text \<open>
  One iteration of the loop of \<open>Execute\<close> up to the call of the child: the Serial as
  it stands when the child runs, and the actions of the iteration.
\<close>

definition begin_child :: "'w Serial \<Rightarrow> 'w \<Rightarrow> 'w Task \<Rightarrow> 'w Serial" where
  "begin_child s w t =
     s\<lparr>Progress := provisional (startedTasks s) (int (length (inner s))),
       startedTasks := startedTasks s + 1,
       CurTaskSteps := step_lines ''Starting'' (String t w)\<rparr>"

definition child_actions :: "'w Serial \<Rightarrow> 'w \<Rightarrow> 'w Task \<Rightarrow> 'w action list" where
  "child_actions s w t =
     (if \<not> isDisplayTask t \<and> \<not> hideDetailDisplay s
      then [Infof (''+ [ Serial ] - '' @ String t w)] else [])
     @ [SetProgress (provisional (startedTasks s) (int (length (inner s)))),
        PublishTaskBegin t, PublishTaskFinish t (fst (Execute t w))]"

text \<open>
  Rolling back a list of tasks in the order given, stopping at the first error: what the
  specification says of \<open>Serial.Rollback\<close>, on the reversed list of children.
\<close>

fun rollback_chain :: "'w Task list \<Rightarrow> 'w \<Rightarrow> error option \<times> 'w" where
  "rollback_chain [] w = (None, w)"
| "rollback_chain (t # ts) w =
     (case Rollback t w of
        (Some e, w') \<Rightarrow> (Some e, w')
      | (None, w') \<Rightarrow> rollback_chain ts w')"

fun all_rolled_back :: "'w Task list \<Rightarrow> 'w \<Rightarrow> bool" where
  "all_rolled_back [] w = True"
| "all_rolled_back (t # ts) w =
     (fst (Rollback t w) = None \<and> all_rolled_back ts (snd (Rollback t w)))"

fun run_rollbacks :: "'w Task list \<Rightarrow> 'w \<Rightarrow> 'w" where
  "run_rollbacks [] w = w"
| "run_rollbacks (t # ts) w = run_rollbacks ts (snd (Rollback t w))"

text \<open>
  The steps that \<open>ComputeProgress\<close> counts: a child that is a \<open>StepDisplay\<close>, and the
  \<open>StepDisplay\<close> children of the \<open>Parallel\<close> inside a child that is a
  \<open>ParallelStepDisplay\<close>; and the lines it reports for them.
\<close>

definition nested_steps :: "'w Parallel \<Rightarrow> StepDisplay list" where
  "nested_steps par =
     concat (map (\<lambda>t. case dyn t of IsStepDisplay sd \<Rightarrow> [sd] | _ \<Rightarrow> []) (par_inner par))"

definition steps_of :: "'w Task \<Rightarrow> StepDisplay list" where
  "steps_of t =
     (case dyn t of
        IsStepDisplay sd \<Rightarrow> [sd]
      | IsParallelStepDisplay pre par \<Rightarrow> nested_steps par
      | _ \<Rightarrow> [])"

definition all_steps :: "'w Serial \<Rightarrow> StepDisplay list" where
  "all_steps s = concat (map steps_of (inner s))"

definition status_line :: "StepDisplay \<Rightarrow> string" where
  "status_line sd = prefix sd @ '' ... '' @ format_d (progress sd) @ ''%''"

definition shown :: "StepDisplay list \<Rightarrow> string list" where
  "shown sds = map status_line (filter (\<lambda>sd. progress sd > 0) sds)"

definition lines_of :: "'w Task \<Rightarrow> string list" where
  "lines_of t =
     (case dyn t of
        IsStepDisplay sd \<Rightarrow> shown [sd]
      | IsParallelStepDisplay pre par \<Rightarrow>
          (if shown (nested_steps par) = [] then [] else pre # shown (nested_steps par))
      | _ \<Rightarrow> [])"

definition finished_count :: "StepDisplay list \<Rightarrow> nat" where
  "finished_count sds = length (filter (\<lambda>sd. progress sd = 100) sds)"

subsection \<open>Parallel\<close>

text \<open>
  The results and the outside state of calling one method of a list of tasks, one task
  after the other: what a run of \<open>Parallel\<close> amounts to for the order in which the
  scheduler let the children be called.
\<close>

fun results :: "call \<Rightarrow> 'w Task list \<Rightarrow> 'w \<Rightarrow> error option list" where
  "results m [] w = []"
| "results m (t # ts) w = fst (invoke m t w) # results m ts (snd (invoke m t w))"

fun world_after :: "call \<Rightarrow> 'w Task list \<Rightarrow> 'w \<Rightarrow> 'w" where
  "world_after m [] w = w"
| "world_after m (t # ts) w = world_after m ts (snd (invoke m t w))"

text \<open>
  Whether the caller has returned, and whether a thread can take a step.
\<close>

definition returned :: "'w pstate \<Rightarrow> bool" where
  "returned c = (case mainpc c of Returned r \<Rightarrow> True | _ \<Rightarrow> False)"

definition enabled :: "call \<Rightarrow> 'w Parallel \<Rightarrow> 'w pstate \<Rightarrow> thread \<Rightarrow> bool" where
  "enabled m pt c th = (step m pt th c \<noteq> None)"

text \<open>
  The invariants of a run. A worker counts in the \<open>WaitGroup\<close> from its start to its
  \<open>wg.Done()\<close>; the workers started are those before the index of the caller's loop;
  the counter is the number of workers that count, plus one between \<open>wg.Add(1)\<close> and
  \<open>go\<close>; the mutex is held by the worker inside the critical section; a worker at or
  inside the critical section has an error; \<open>stores\<close> lists the workers that have left
  the critical section, and \<open>firstError\<close> is the error of the first of them; \<open>calls\<close>
  lists the workers that have called their child, and the outside state and the errors
  are those of these calls in their order; the caller has returned only if all workers
  have, with the value that the method returns.
\<close>

definition active :: "worker \<Rightarrow> nat" where
  "active x = (if pc x = NotStarted \<or> pc x = Exited then 0 else 1)"

definition spawned :: "nat \<Rightarrow> mpc \<Rightarrow> nat" where
  "spawned n l = (case l of AtAdd i \<Rightarrow> i | AtGo i \<Rightarrow> i | _ \<Rightarrow> n)"

definition inv_shape :: "'w Parallel \<Rightarrow> 'w pstate \<Rightarrow> bool" where
  "inv_shape pt c \<longleftrightarrow>
     length (workers c) = length (par_inner pt)
     \<and> (case mainpc c of
          AtAdd i \<Rightarrow> i \<le> length (par_inner pt)
        | AtGo i \<Rightarrow> i < length (par_inner pt)
        | _ \<Rightarrow> True)"

definition inv_spawn :: "'w pstate \<Rightarrow> bool" where
  "inv_spawn c \<longleftrightarrow>
     (\<forall>j<length (workers c).
        (pc (workers c ! j) = NotStarted) = (spawned (length (workers c)) (mainpc c) \<le> j))"

definition inv_wg :: "'w pstate \<Rightarrow> bool" where
  "inv_wg c \<longleftrightarrow>
     wg c = int (sum_list (map active (workers c)))
            + (case mainpc c of AtGo i \<Rightarrow> 1 | _ \<Rightarrow> 0)"

definition inv_mu :: "'w pstate \<Rightarrow> bool" where
  "inv_mu c \<longleftrightarrow>
     (\<forall>j. mu c = Some j \<longrightarrow> j < length (workers c))
     \<and> (\<forall>j<length (workers c).
           (pc (workers c ! j) = AtStore \<or> pc (workers c ! j) = AtUnlock) = (mu c = Some j))"

definition inv_err :: "'w pstate \<Rightarrow> bool" where
  "inv_err c \<longleftrightarrow>
     (\<forall>j<length (workers c).
        pc (workers c ! j) = AtLock \<or> pc (workers c ! j) = AtStore
        \<or> pc (workers c ! j) = AtUnlock \<longrightarrow> werr (workers c ! j) \<noteq> None)"

definition stored :: "worker \<Rightarrow> bool" where
  "stored x \<longleftrightarrow> werr x \<noteq> None \<and> (pc x = AtUnlock \<or> pc x = AtDone \<or> pc x = Exited)"

definition inv_stores :: "'w pstate \<Rightarrow> bool" where
  "inv_stores c \<longleftrightarrow>
     distinct (stores c)
     \<and> set (stores c) = {j. j < length (workers c) \<and> stored (workers c ! j)}
     \<and> firstError c = (if stores c = [] then None else werr (workers c ! hd (stores c)))"

definition called :: "worker \<Rightarrow> bool" where
  "called x \<longleftrightarrow> pc x \<noteq> NotStarted \<and> pc x \<noteq> AtLog \<and> pc x \<noteq> AtBegin \<and> pc x \<noteq> AtCall"

definition inv_calls :: "call \<Rightarrow> 'w Parallel \<Rightarrow> 'w \<Rightarrow> 'w pstate \<Rightarrow> bool" where
  "inv_calls m pt w c \<longleftrightarrow>
     distinct (calls c)
     \<and> set (calls c) = {j. j < length (workers c) \<and> called (workers c ! j)}
     \<and> shared c = world_after m (map ((!) (par_inner pt)) (calls c)) w
     \<and> results m (map ((!) (par_inner pt)) (calls c)) w
         = map (\<lambda>j. werr (workers c ! j)) (calls c)"

definition inv_ret :: "call \<Rightarrow> 'w Parallel \<Rightarrow> 'w pstate \<Rightarrow> bool" where
  "inv_ret m pt c \<longleftrightarrow>
     (\<forall>r. mainpc c = Returned r \<longrightarrow>
        (\<forall>j<length (workers c). pc (workers c ! j) = Exited)
        \<and> r = (case m of
                 CallExecute \<Rightarrow> if par_ignoreError pt then None else firstError c
               | CallRollback \<Rightarrow> firstError c))"

text \<open>How far a thread has come: every step moves the thread that takes it forward.\<close>

definition rank_worker :: "worker \<Rightarrow> nat" where
  "rank_worker x =
     (case pc x of
        NotStarted \<Rightarrow> 0 | AtLog \<Rightarrow> 1 | AtBegin \<Rightarrow> 2 | AtCall \<Rightarrow> 3 | AtFinish \<Rightarrow> 4
      | AtCheck \<Rightarrow> 5 | AtLock \<Rightarrow> 6 | AtStore \<Rightarrow> 7 | AtUnlock \<Rightarrow> 8 | AtDone \<Rightarrow> 9
      | Exited \<Rightarrow> 10)"

definition rank_main :: "nat \<Rightarrow> mpc \<Rightarrow> nat" where
  "rank_main n l =
     (case l of AtAdd i \<Rightarrow> 2 * i | AtGo i \<Rightarrow> 2 * i + 1 | AtWait \<Rightarrow> 2 * n + 1
      | Returned r \<Rightarrow> 2 * n + 2)"

definition rank :: "'w pstate \<Rightarrow> nat" where
  "rank c = rank_main (length (workers c)) (mainpc c) + sum_list (map rank_worker (workers c))"

definition invs :: "call \<Rightarrow> 'w Parallel \<Rightarrow> 'w \<Rightarrow> 'w pstate \<Rightarrow> bool" where
  "invs m pt w c \<longleftrightarrow>
     inv_shape pt c \<and> inv_spawn c \<and> inv_wg c \<and> inv_mu c \<and> inv_err c \<and> inv_stores c
     \<and> inv_calls m pt w c \<and> inv_ret m pt c"

section \<open>Tasks and groups used in examples\<close>

text \<open>
  Three leaf tasks over a counter as the outside state: \<open>A\<close> and \<open>C\<close> succeed, \<open>B\<close>
  fails; each leaves its mark on the counter. \<open>newSerial\<close> is a Serial as the builder
  makes it: nothing started, no progress, no lines.
\<close>

definition taskA :: "nat Task" where
  "taskA = Task IsLeaf (\<lambda>w. ''A'') (\<lambda>w. (None, w + 1)) (\<lambda>w. (None, w + 100))"

definition taskB :: "nat Task" where
  "taskB = Task IsLeaf (\<lambda>w. ''B'') (\<lambda>w. (Some (Err ''disk full''), w + 10))
                (\<lambda>w. (Some ErrUnsupportedRollback, w + 1000))"

definition taskC :: "nat Task" where
  "taskC = Task IsLeaf (\<lambda>w. ''C'') (\<lambda>w. (None, w + 5)) (\<lambda>w. (None, w + 500))"

definition newSerial :: "bool \<Rightarrow> 'w Task list \<Rightarrow> 'w Serial" where
  "newSerial ignore ts =
     \<lparr>ignoreError = ignore, hideDetailDisplay = False, inner = ts, startedTasks = 0,
      Progress = 0, CurTaskSteps = [], Steps = []\<rparr>"

text \<open>Display steps at progress 100, 37 and 0, and two groups of them.\<close>

definition stepDownload :: "nat Task" where
  "stepDownload = Task (IsStepDisplay \<lparr>prefix = ''Download'', progress = 100\<rparr>)
     (\<lambda>w. ''Download'') (\<lambda>w. (None, w)) (\<lambda>w. (None, w))"

definition stepCopy :: "nat Task" where
  "stepCopy = Task (IsStepDisplay \<lparr>prefix = ''Copy'', progress = 37\<rparr>)
     (\<lambda>w. ''Copy'') (\<lambda>w. (None, w)) (\<lambda>w. (None, w))"

definition stepInit :: "nat Task" where
  "stepInit = Task (IsStepDisplay \<lparr>prefix = ''Init'', progress = 0\<rparr>)
     (\<lambda>w. ''Init'') (\<lambda>w. (None, w)) (\<lambda>w. (None, w))"

definition stepHosts :: "nat Task" where
  "stepHosts = Task (IsParallelStepDisplay ''Hosts''
                      (Parallel False False [stepCopy, taskA, stepInit, stepDownload]))
     (\<lambda>w. ''Hosts'') (\<lambda>w. (None, w)) (\<lambda>w. (None, w))"

definition stepIdle :: "nat Task" where
  "stepIdle = Task (IsParallelStepDisplay ''Idle'' (Parallel False False [stepInit, stepInit]))
     (\<lambda>w. ''Idle'') (\<lambda>w. (None, w)) (\<lambda>w. (None, w))"

text \<open>A second failing task, and a \<open>Parallel\<close> of three children.\<close>

definition taskD :: "nat Task" where
  "taskD = Task IsLeaf (\<lambda>w. ''D'') (\<lambda>w. (Some (Err ''timeout''), w + 20))
                (\<lambda>w. (Some ErrNoExecutor, w + 2000))"

definition hosts :: "nat Parallel" where
  "hosts = Parallel False False [taskA, taskB, taskD]"

text \<open>
  A schedule for three children: the caller starts the three workers and reaches
  \<open>wg.Wait\<close>; then the third worker runs to its end, then the first, then the second;
  then the caller returns.
\<close>

definition third_first :: "thread list" where
  "third_first =
     [Main, Main, Main, Main, Main, Main, Main,
      Worker 2, Worker 2, Worker 2, Worker 2, Worker 2, Worker 2, Worker 2, Worker 2, Worker 2,
      Worker 0, Worker 0, Worker 0, Worker 0, Worker 0, Worker 0,
      Worker 1, Worker 1, Worker 1, Worker 1, Worker 1, Worker 1, Worker 1, Worker 1, Worker 1,
      Main]"

text \<open>
  A schedule for \<open>Rollback\<close>, where the second and the third child fail: the second
  worker is first through the critical section, although the third called its child
  first.
\<close>

definition second_stores_first :: "thread list" where
  "second_stores_first =
     [Main, Main, Main, Main, Main, Main, Main,
      Worker 2, Worker 1, Worker 1, Worker 1, Worker 1, Worker 2,
      Worker 1, Worker 1,
      Worker 2, Worker 2, Worker 2, Worker 2,
      Worker 0, Worker 0, Worker 0,
      Main]"

section \<open>Serial: what Execute does\<close>

subsection \<open>The loop, one iteration at a time\<close>

lemma saveSteps_foldl:
  "foldl (\<lambda>s' l. if TrimSpace l \<noteq> ''''
                  then s'\<lparr>CurTaskSteps := CurTaskSteps s' @ [tag_line st l]\<rparr>
                  else s') s ls
   = s\<lparr>CurTaskSteps := CurTaskSteps s @ map (tag_line st) (filter (\<lambda>l. TrimSpace l \<noteq> '''') ls)\<rparr>"
  by (induction ls arbitrary: s) simp_all

lemma saveSteps_eq:
  "saveSteps s w t st =
     (if st = ''Done''
      then s\<lparr>CurTaskSteps := [], Steps := Steps s @ step_lines st (String t w)\<rparr>
      else s\<lparr>CurTaskSteps := step_lines st (String t w)\<rparr>)"
  by (simp add: saveSteps_def saveSteps_foldl step_lines_def Let_def)

lemma sdiv_nonneg: "0 \<le> a \<Longrightarrow> 0 < b \<Longrightarrow> a sdiv b = a div (b::int)"
  by (cases "a = 0") (simp_all add: signed_divide_int_def)

lemma half_step_code:
  assumes "0 < n"
  shows "(if (100 sdiv n) sdiv 2 = 0 then 1 else (100 sdiv n) sdiv 2) = half_step n"
proof -
  have "0 \<le> 100 div n" using assms by (simp add: pos_imp_zdiv_nonneg_iff)
  then have "0 \<le> 100 div n div 2" by simp
  then show ?thesis
    using assms \<open>0 \<le> 100 div n\<close> by (simp add: half_step_def sdiv_nonneg max_def)
qed

lemma Execute_loop_Cons:
  assumes "inner s \<noteq> []"
  shows "Execute_loop (t # ts) s w =
     (if fst (Execute t w) \<noteq> None \<and> \<not> ignoreError s
      then Inr \<lparr>err = fst (Execute t w),
                serial = (begin_child s w t)
                   \<lparr>CurTaskSteps := step_lines ''Error'' (String t (snd (Execute t w)))\<rparr>,
                world = snd (Execute t w), trace = child_actions s w t\<rparr>
      else (case Execute_loop ts (begin_child s w t) (snd (Execute t w)) of
              Inl p \<Rightarrow> Inl p
            | Inr r \<Rightarrow> Inr (r\<lparr>trace := child_actions s w t @ trace r\<rparr>)))"
proof -
  have "0 < int (length (inner s))" using assms by simp
  note h = half_step_code[OF this]
  show ?thesis
    using assms
    by (simp add: go_div_def provisional_def h saveSteps_eq Let_def case_prod_beta
          begin_child_def child_actions_def cong: sum.case_cong)
qed

declare Execute_loop.simps(2) [simp del]

lemma begin_child_simps [simp]:
  "inner (begin_child s w t) = inner s"
  "ignoreError (begin_child s w t) = ignoreError s"
  "hideDetailDisplay (begin_child s w t) = hideDetailDisplay s"
  "Steps (begin_child s w t) = Steps s"
  "startedTasks (begin_child s w t) = startedTasks s + 1"
  "Progress (begin_child s w t) = provisional (startedTasks s) (int (length (inner s)))"
  "CurTaskSteps (begin_child s w t) = step_lines ''Starting'' (String t w)"
  by (simp_all add: begin_child_def)

subsection \<open>Reading the actions of a run\<close>

lemma begun_append: "begun (as @ bs) = begun as @ begun bs"
  by (induction as rule: begun.induct) simp_all

lemma finishes_append: "finishes (as @ bs) = finishes as @ finishes bs"
  by (induction as rule: finishes.induct) simp_all

lemma progress_writes_append: "progress_writes (as @ bs) = progress_writes as @ progress_writes bs"
  by (induction as rule: progress_writes.induct) simp_all

lemma progress_and_begin_append:
  "progress_and_begin (as @ bs) = progress_and_begin as @ progress_and_begin bs"
  by (induction as rule: progress_and_begin.induct) simp_all

lemma child_actions_simps [simp]:
  "begun (child_actions s w t) = [t]"
  "finishes (child_actions s w t) = [(t, fst (Execute t w))]"
  "progress_writes (child_actions s w t) = [provisional (startedTasks s) (int (length (inner s)))]"
  "progress_and_begin (child_actions s w t) =
     [SetProgress (provisional (startedTasks s) (int (length (inner s)))), PublishTaskBegin t]"
  by (simp_all add: child_actions_def begun_append finishes_append progress_writes_append
        progress_and_begin_append)

subsection \<open>Properties of the whole loop\<close>

lemma Execute_loop_returns:
  "ts \<noteq> [] \<longrightarrow> inner s \<noteq> [] \<Longrightarrow> \<exists>r. Execute_loop ts s w = Inr r"
proof (induction ts arbitrary: s w)
  case Nil
  show ?case by simp
next
  case (Cons t ts)
  then have ne: "inner s \<noteq> []" by simp
  then have "ts \<noteq> [] \<longrightarrow> inner (begin_child s w t) \<noteq> []" by simp
  from Cons.IH[OF this] obtain r
    where "Execute_loop ts (begin_child s w t) (snd (Execute t w)) = Inr r"
    by blast
  then show ?case
    by (simp add: Execute_loop_Cons[OF ne])
qed

lemma Execute_loop_stop:
  assumes "inner s \<noteq> []" and "fst (Execute t w) = Some e" and "\<not> ignoreError s"
  shows "Execute_loop (t # ts) s w =
     Inr \<lparr>err = Some e,
          serial = (begin_child s w t)
             \<lparr>CurTaskSteps := step_lines ''Error'' (String t (snd (Execute t w)))\<rparr>,
          world = snd (Execute t w), trace = child_actions s w t\<rparr>"
  using assms by (simp add: Execute_loop_Cons)

lemma Execute_loop_continue:
  assumes "inner s \<noteq> []" and "fst (Execute t w) = None \<or> ignoreError s"
  shows "Execute_loop (t # ts) s w =
     (case Execute_loop ts (begin_child s w t) (snd (Execute t w)) of
        Inl p \<Rightarrow> Inl p
      | Inr r \<Rightarrow> Inr (r\<lparr>trace := child_actions s w t @ trace r\<rparr>))"
  using assms by (auto simp: Execute_loop_Cons)

lemma Execute_loop_ConsE:
  assumes "Execute_loop (t # ts) s w = Inr r" and "inner s \<noteq> []"
  obtains
    (stop) e where "fst (Execute t w) = Some e" and "\<not> ignoreError s"
      and "r = \<lparr>err = Some e,
                serial = (begin_child s w t)
                   \<lparr>CurTaskSteps := step_lines ''Error'' (String t (snd (Execute t w)))\<rparr>,
                world = snd (Execute t w), trace = child_actions s w t\<rparr>"
  | (continue) r' where "fst (Execute t w) = None \<or> ignoreError s"
      and "Execute_loop ts (begin_child s w t) (snd (Execute t w)) = Inr r'"
      and "r = r'\<lparr>trace := child_actions s w t @ trace r'\<rparr>"
proof (cases "fst (Execute t w) = None \<or> ignoreError s")
  case False
  then obtain e where e: "fst (Execute t w) = Some e" "\<not> ignoreError s" by auto
  from assms(1) show ?thesis
    unfolding Execute_loop_stop[OF assms(2) e] using e by (intro stop[of e]) simp_all
next
  case True
  from assms(1) show ?thesis
    unfolding Execute_loop_continue[OF assms(2) True]
    using True by (cases "Execute_loop ts (begin_child s w t) (snd (Execute t w))")
      (simp_all add: continue)
qed

lemma Execute_loop_keeps:
  assumes "Execute_loop ts s w = Inr r" and "ts \<noteq> [] \<longrightarrow> inner s \<noteq> []"
  shows "Steps (serial r) = Steps s \<and> inner (serial r) = inner s
         \<and> ignoreError (serial r) = ignoreError s
         \<and> hideDetailDisplay (serial r) = hideDetailDisplay s
         \<and> startedTasks (serial r) = startedTasks s + int (length (begun (trace r)))"
  using assms
proof (induction ts arbitrary: s w r)
  case Nil
  then show ?case by auto
next
  case (Cons t ts)
  then have ne: "inner s \<noteq> []" by simp
  from Cons.prems(1) ne show ?case
  proof (cases rule: Execute_loop_ConsE)
    case stop
    then show ?thesis by simp
  next
    case (continue r')
    have "ts \<noteq> [] \<longrightarrow> inner (begin_child s w t) \<noteq> []" using ne by simp
    from Cons.IH[OF continue(2) this] show ?thesis
      by (simp add: continue(3) begun_append)
  qed
qed

text \<open>Which children ran: a prefix of the list, each once, in order.\<close>

lemma Execute_loop_prefix:
  assumes "Execute_loop ts s w = Inr r" and "ts \<noteq> [] \<longrightarrow> inner s \<noteq> []"
  shows "\<exists>k. k \<le> length ts \<and> begun (trace r) = take k ts
           \<and> finishes (trace r) = outcomes (take k ts) w
           \<and> world r = run_children (take k ts) w
           \<and> (err r = None \<longrightarrow> k = length ts)"
  using assms
proof (induction ts arbitrary: s w r)
  case Nil
  then show ?case by auto
next
  case (Cons t ts)
  then have ne: "inner s \<noteq> []" by simp
  from Cons.prems(1) ne show ?case
  proof (cases rule: Execute_loop_ConsE)
    case (stop e)
    have "Suc 0 \<le> length (t # ts) \<and> begun (trace r) = take (Suc 0) (t # ts)
          \<and> finishes (trace r) = outcomes (take (Suc 0) (t # ts)) w
          \<and> world r = run_children (take (Suc 0) (t # ts)) w
          \<and> (err r = None \<longrightarrow> Suc 0 = length (t # ts))"
      by (simp add: stop(3))
    then show ?thesis by (rule exI[of _ "Suc 0"])
  next
    case (continue r')
    have "ts \<noteq> [] \<longrightarrow> inner (begin_child s w t) \<noteq> []" using ne by simp
    from Cons.IH[OF continue(2) this] obtain k where k: "k \<le> length ts
      \<and> begun (trace r') = take k ts
      \<and> finishes (trace r') = outcomes (take k ts) (snd (Execute t w))
      \<and> world r' = run_children (take k ts) (snd (Execute t w))
      \<and> (err r' = None \<longrightarrow> k = length ts)" ..
    have "Suc k \<le> length (t # ts) \<and> begun (trace r) = take (Suc k) (t # ts)
          \<and> finishes (trace r) = outcomes (take (Suc k) (t # ts)) w
          \<and> world r = run_children (take (Suc k) (t # ts)) w
          \<and> (err r = None \<longrightarrow> Suc k = length (t # ts))"
      using k by (simp add: continue(3) begun_append finishes_append)
    then show ?thesis by (rule exI[of _ "Suc k"])
  qed
qed


lemma Execute_loop_progress:
  assumes "Execute_loop ts s w = Inr r" and "ts \<noteq> [] \<longrightarrow> inner s \<noteq> []"
  shows "progress_and_begin (trace r)
         = concat (map (\<lambda>i. [SetProgress (provisional (startedTasks s + int i)
                                             (int (length (inner s)))),
                              PublishTaskBegin (ts ! i)])
                       [0..<length (begun (trace r))])
           @ (if err r = None then [SetProgress 100] else [])"
  using assms
proof (induction ts arbitrary: s w r)
  case Nil
  then show ?case by auto
next
  case (Cons t ts)
  then have ne: "inner s \<noteq> []" by simp
  from Cons.prems(1) ne show ?case
  proof (cases rule: Execute_loop_ConsE)
    case (stop e)
    then show ?thesis by simp
  next
    case (continue r')
    have "ts \<noteq> [] \<longrightarrow> inner (begin_child s w t) \<noteq> []" using ne by simp
    from Cons.IH[OF continue(2) this]
    have "progress_and_begin (trace r')
         = concat (map (\<lambda>i. [SetProgress (provisional (startedTasks s + 1 + int i)
                                             (int (length (inner s)))),
                              PublishTaskBegin (ts ! i)])
                       [0..<length (begun (trace r'))])
           @ (if err r' = None then [SetProgress 100] else [])"
      by simp
    then show ?thesis
      by (simp add: continue(3) begun_append progress_and_begin_append map_upt_Suc
            add.assoc del: upt_Suc)
  qed
qed

lemma progress_writes_progress_and_begin:
  "progress_writes (progress_and_begin as) = progress_writes as"
  by (induction as rule: progress_and_begin.induct) simp_all

lemma progress_writes_pairs:
  "progress_writes (concat (map (\<lambda>i. [SetProgress (f i), PublishTaskBegin (g i)]) is))
   = map f is"
  by (induction "is") simp_all

lemma Execute_loop_progress_writes:
  assumes "Execute_loop ts s w = Inr r" and "ts \<noteq> [] \<longrightarrow> inner s \<noteq> []"
  shows "progress_writes (trace r)
         = map (\<lambda>i. provisional (startedTasks s + int i) (int (length (inner s))))
               [0..<length (begun (trace r))]
           @ (if err r = None then [100] else [])"
proof -
  have "progress_writes (trace r) = progress_writes (progress_and_begin (trace r))"
    by (simp add: progress_writes_progress_and_begin)
  also have "\<dots> = map (\<lambda>i. provisional (startedTasks s + int i) (int (length (inner s))))
               [0..<length (begun (trace r))]
           @ (if err r = None then [100] else [])"
    unfolding Execute_loop_progress[OF assms]
    by (simp add: progress_writes_append progress_writes_pairs)
  finally show ?thesis .
qed

subsection \<open>Arithmetic of the provisional progress\<close>

lemma mult_div_le_int:
  assumes "0 < (n::int)"
  shows "n * (a div n) \<le> a"
proof -
  have "n * (a div n) + a mod n = a" by (rule mult_div_mod_eq)
  moreover have "0 \<le> a mod n" using assms by (rule pos_mod_sign)
  ultimately show ?thesis by linarith
qed

lemma div_less_int:
  assumes "0 < (n::int)" and "a < b * n"
  shows "a div n < b"
proof -
  have "n * (a div n) < n * b"
    using mult_div_le_int[OF assms(1), of a] assms(2) by (simp add: mult.commute)
  then show ?thesis using assms(1) by (simp add: mult_less_cancel_left_pos)
qed

lemma div_le_int:
  assumes "0 < (n::int)" and "a \<le> b * n"
  shows "a div n \<le> b"
proof -
  have "a div n \<le> b * n div n" using assms by (intro zdiv_mono1)
  then show ?thesis using assms(1) by simp
qed

lemma provisional_nonneg:
  assumes "0 \<le> a" and "0 < n"
  shows "provisional a n
         = a * 100 div n + (if 100 div n div 2 = 0 then 1 else 100 div n div 2)"
proof -
  have "0 \<le> 100 div n" using assms(2) by (simp add: pos_imp_zdiv_nonneg_iff)
  then have "0 \<le> 100 div n div 2" by simp
  then show ?thesis
    using assms \<open>0 \<le> 100 div n\<close>
    by (simp add: provisional_def half_step_def sdiv_nonneg max_def)
qed

lemma provisional_mono:
  assumes "0 \<le> a" and "a \<le> b" and "0 < n"
  shows "provisional a n \<le> provisional b n"
proof -
  have "a * 100 div n \<le> b * 100 div n"
    using assms by (intro zdiv_mono1) simp_all
  then show ?thesis
    using assms by (simp add: provisional_nonneg)
qed

lemma provisional_pos:
  assumes "0 \<le> a" and "0 < n"
  shows "0 < provisional a n"
proof -
  have "0 \<le> a * 100 div n" using assms by (simp add: pos_imp_zdiv_nonneg_iff)
  moreover have "0 \<le> 100 div n" using assms(2) by (simp add: pos_imp_zdiv_nonneg_iff)
  then have "0 \<le> 100 div n div 2" by simp
  ultimately have "0 < a * 100 div n + (if 100 div n div 2 = 0 then 1 else 100 div n div 2)"
    by (cases "100 div n div 2 = 0") simp_all
  then show ?thesis
    using assms by (simp only: provisional_nonneg)
qed

text \<open>
  Before a child of index \<open>i\<close> among \<open>n\<close> the provisional value is at most 100, and
  below 100 when there are fewer than 100 children.
\<close>

lemma provisional_bound:
  assumes "0 \<le> i" and "i < n"
  shows "provisional i n \<le> 100" and "n < 100 \<Longrightarrow> provisional i n < 100"
proof -
  have n: "0 < n" using assms by simp
  define q where "q = 100 div n"
  define h where "h = (if q div 2 = 0 then 1 else q div 2)"
  have p: "provisional i n = i * 100 div n + h"
    using assms n by (simp add: provisional_nonneg q_def h_def)
  have q0: "0 \<le> q" using n by (simp add: q_def pos_imp_zdiv_nonneg_iff)
  have nq: "n * q \<le> 100" unfolding q_def using n by (rule mult_div_le_int)
  have "i * 100 \<le> (n - 1) * 100" using assms by simp
  also have "\<dots> = n * 100 - 100" by (simp add: algebra_simps)
  finally have i: "i * 100 \<le> n * 100 - 100" .
  have "i * 100 \<le> (100 - q) * n" using i nq by (simp add: algebra_simps)
  then have d: "i * 100 div n \<le> 100 - q" using n by (intro div_le_int)
  have "i * 100 < 100 * n" using i by simp
  then have d0: "i * 100 div n < 100" using n by (intro div_less_int)
  show "provisional i n \<le> 100"
  proof (cases "q div 2 = 0")
    case True
    then show ?thesis using d0 by (simp add: p h_def)
  next
    case False
    have "q div 2 \<le> q" using q0 by simp
    then show ?thesis using d False by (simp add: p h_def)
  qed
  show "provisional i n < 100" if "n < 100"
  proof (cases "q div 2 = 0")
    case True
    have "i * 100 < 99 * n" using i that by simp
    then have "i * 100 div n < 99" using n by (intro div_less_int)
    then show ?thesis using True by (simp add: p h_def)
  next
    case False
    then have "0 < q" using q0 by (cases "q = 0") simp_all
    then have "q div 2 < q" by simp
    then show ?thesis using d False by (simp add: p h_def)
  qed
qed


lemma Execute_loop_all_succeed:
  assumes "all_succeed ts w" and "ts \<noteq> [] \<longrightarrow> inner s \<noteq> []"
  shows "\<exists>r. Execute_loop ts s w = Inr r \<and> err r = None \<and> Progress (serial r) = 100
           \<and> begun (trace r) = ts \<and> world r = run_children ts w"
  using assms
proof (induction ts arbitrary: s w)
  case Nil
  show ?case by simp
next
  case (Cons t ts)
  then have ne: "inner s \<noteq> []" by simp
  have "all_succeed ts (snd (Execute t w))" "ts \<noteq> [] \<longrightarrow> inner (begin_child s w t) \<noteq> []"
    using Cons.prems ne by simp_all
  from Cons.IH[OF this] obtain r where
    r: "Execute_loop ts (begin_child s w t) (snd (Execute t w)) = Inr r \<and> err r = None
        \<and> Progress (serial r) = 100
        \<and> begun (trace r) = ts \<and> world r = run_children ts (snd (Execute t w))" ..
  have "Execute_loop (t # ts) s w = Inr (r\<lparr>trace := child_actions s w t @ trace r\<rparr>)"
    using r ne Cons.prems(1) by (simp add: Execute_loop_continue)
  then show ?case
    using r by (simp add: begun_append)
qed

lemma Execute_loop_final_Progress:
  assumes "Execute_loop ts s w = Inr r" and "ts \<noteq> [] \<longrightarrow> inner s \<noteq> []"
  shows "Progress (serial r) = last (Progress s # progress_writes (trace r))"
  using assms
proof (induction ts arbitrary: s w r)
  case Nil
  then show ?case by auto
next
  case (Cons t ts)
  then have ne: "inner s \<noteq> []" by simp
  from Cons.prems(1) ne show ?case
  proof (cases rule: Execute_loop_ConsE)
    case (stop e)
    then show ?thesis by simp
  next
    case (continue r')
    have "ts \<noteq> [] \<longrightarrow> inner (begin_child s w t) \<noteq> []" using ne by simp
    from Cons.IH[OF continue(2) this] show ?thesis
      by (simp add: continue(3) progress_writes_append)
  qed
qed

lemma sorted_map_upt:
  assumes "\<And>i j. i \<le> j \<Longrightarrow> j < k \<Longrightarrow> f i \<le> (f j :: int)"
  shows "sorted (map f [0..<k])"
  using assms by (simp add: sorted_iff_nth_mono)


section \<open>Serial: the claims\<close>

lemma Execute_loop_first_failure:
  assumes "inner s \<noteq> []" and "\<not> ignoreError s" and "all_succeed pre w"
    and "fst (Execute t (run_children pre w)) = Some e"
  shows "\<exists>r. Execute_loop (pre @ t # post) s w = Inr r \<and> err r = Some e
           \<and> CurTaskSteps (serial r) = step_lines ''Error'' (String t (world r))
           \<and> world r = snd (Execute t (run_children pre w))
           \<and> begun (trace r) = pre @ [t]
           \<and> finishes (trace r) = outcomes (pre @ [t]) w"
  using assms
proof (induction pre arbitrary: s w)
  case Nil
  then show ?case by (simp add: Execute_loop_stop)
next
  case (Cons p pre)
  from Cons.prems have p: "fst (Execute p w) = None" and
    rest: "all_succeed pre (snd (Execute p w))"
      "fst (Execute t (run_children pre (snd (Execute p w)))) = Some e"
    by simp_all
  have "inner (begin_child s w p) \<noteq> []" "\<not> ignoreError (begin_child s w p)"
    using Cons.prems by simp_all
  from Cons.IH[OF this rest] obtain r where
    r: "Execute_loop (pre @ t # post) (begin_child s w p) (snd (Execute p w)) = Inr r \<and> err r = Some e
           \<and> CurTaskSteps (serial r) = step_lines ''Error'' (String t (world r))
           \<and> world r = snd (Execute t (run_children pre (snd (Execute p w))))
           \<and> begun (trace r) = pre @ [t]
           \<and> finishes (trace r) = outcomes (pre @ [t]) (snd (Execute p w))" ..
  have "Execute_loop ((p # pre) @ t # post) s w = Inr (r\<lparr>trace := child_actions s w p @ trace r\<rparr>)"
    using r p Cons.prems(1) by (simp add: Execute_loop_continue)
  then show ?case
    using r by (simp add: begun_append finishes_append)
qed

text \<open>
  C1. A Serial that does not ignore errors, whose children before \<open>t\<close> all succeed and
  whose child \<open>t\<close> fails with \<open>e\<close>: \<open>Execute\<close> returns \<open>e\<close>, the current step lines are
  the lines of the description of \<open>t\<close> tagged \<open>Error\<close>, and the children after \<open>t\<close> are
  never executed: the events published are those of the children up to \<open>t\<close>, and the
  outside state is the one \<open>t\<close> left.
\<close>

theorem Serial_Execute_first_failure:
  assumes "\<not> ignoreError s" and "inner s = pre @ t # post" and "all_succeed pre w"
    and "fst (Execute t (run_children pre w)) = Some e"
  shows "\<exists>r. Serial_Execute s w = Inr r \<and> err r = Some e
           \<and> CurTaskSteps (serial r) = step_lines ''Error'' (String t (world r))
           \<and> world r = snd (Execute t (run_children pre w))
           \<and> begun (trace r) = pre @ [t]
           \<and> finishes (trace r) = outcomes (pre @ [t]) w"
proof -
  have "inner s \<noteq> []" using assms(2) by simp
  from Execute_loop_first_failure[OF this assms(1,3,4), of post]
  show ?thesis by (simp add: Serial_Execute_def assms(2))
qed

theorem Serial_Execute_first_failure_witness:
  "\<not> ignoreError (newSerial False [taskA, taskB, taskC])
   \<and> inner (newSerial False [taskA, taskB, taskC]) = [taskA] @ taskB # [taskC]
   \<and> all_succeed [taskA] (0::nat)
   \<and> fst (Execute taskB (run_children [taskA] 0)) = Some (Err ''disk full'')
   \<and> (\<exists>r. Serial_Execute (newSerial False [taskA, taskB, taskC]) 0 = Inr r
        \<and> err r = Some (Err ''disk full'')
        \<and> CurTaskSteps (serial r) = [''- B ... Error'']
        \<and> world r = 11
        \<and> begun (trace r) = [taskA, taskB])"
proof -
  have h: "\<not> ignoreError (newSerial False [taskA, taskB, taskC])"
    "inner (newSerial False [taskA, taskB, taskC]) = [taskA] @ taskB # [taskC]"
    "all_succeed [taskA] (0::nat)"
    "fst (Execute taskB (run_children [taskA] 0)) = Some (Err ''disk full'')"
    by (simp_all add: newSerial_def taskA_def taskB_def)
  have l: "step_lines ''Error'' ''B'' = [''- B ... Error'']"
    by (simp add: step_lines_def tag_line_def TrimSpace_def isSpace_def)
  from Serial_Execute_first_failure[OF h] obtain r where
    r: "Serial_Execute (newSerial False [taskA, taskB, taskC]) 0 = Inr r \<and> err r = Some (Err ''disk full'')
           \<and> CurTaskSteps (serial r) = step_lines ''Error'' (String taskB (world r))
           \<and> world r = snd (Execute taskB (run_children [taskA] 0))
           \<and> begun (trace r) = [taskA] @ [taskB]
           \<and> finishes (trace r) = outcomes ([taskA] @ [taskB]) 0" ..
  have "world r = 11" using r by (simp add: taskA_def taskB_def)
  moreover have "CurTaskSteps (serial r) = [''- B ... Error'']"
    using r l by (simp add: taskB_def)
  ultimately show ?thesis using h r by auto
qed


lemma Execute_loop_ignoreError:
  assumes "ignoreError s" and "ts \<noteq> [] \<longrightarrow> inner s \<noteq> []"
  shows "\<exists>r. Execute_loop ts s w = Inr r \<and> err r = None \<and> Progress (serial r) = 100
           \<and> begun (trace r) = ts \<and> finishes (trace r) = outcomes ts w
           \<and> world r = run_children ts w"
  using assms
proof (induction ts arbitrary: s w)
  case Nil
  show ?case by simp
next
  case (Cons t ts)
  then have ne: "inner s \<noteq> []" by simp
  have "ignoreError (begin_child s w t)" "ts \<noteq> [] \<longrightarrow> inner (begin_child s w t) \<noteq> []"
    using Cons.prems ne by simp_all
  from Cons.IH[OF this] obtain r where
    r: "Execute_loop ts (begin_child s w t) (snd (Execute t w)) = Inr r \<and> err r = None
        \<and> Progress (serial r) = 100
        \<and> begun (trace r) = ts \<and> finishes (trace r) = outcomes ts (snd (Execute t w))
        \<and> world r = run_children ts (snd (Execute t w))" ..
  have "Execute_loop (t # ts) s w = Inr (r\<lparr>trace := child_actions s w t @ trace r\<rparr>)"
    using r ne Cons.prems(1) by (simp add: Execute_loop_continue)
  then show ?case
    using r by (simp add: begun_append finishes_append)
qed

text \<open>
  C3. A Serial that ignores errors: whatever its children return, \<open>Execute\<close> runs every
  child once, in order (the events published and the outside state are those of all the
  children), returns \<open>nil\<close> and leaves \<open>Progress\<close> at 100.
\<close>

theorem Serial_Execute_ignoreError:
  assumes "ignoreError s"
  shows "\<exists>r. Serial_Execute s w = Inr r \<and> err r = None \<and> Progress (serial r) = 100
           \<and> begun (trace r) = inner s \<and> finishes (trace r) = outcomes (inner s) w
           \<and> world r = run_children (inner s) w"
  unfolding Serial_Execute_def
  using assms by (intro Execute_loop_ignoreError) simp_all

theorem Serial_Execute_ignoreError_witness:
  "ignoreError (newSerial True [taskA, taskB, taskC])
   \<and> (\<exists>r. Serial_Execute (newSerial True [taskA, taskB, taskC]) 0 = Inr r
        \<and> err r = None \<and> Progress (serial r) = 100
        \<and> begun (trace r) = [taskA, taskB, taskC]
        \<and> finishes (trace r) = [(taskA, None), (taskB, Some (Err ''disk full'')), (taskC, None)]
        \<and> world r = 16)"
proof -
  have h: "ignoreError (newSerial True [taskA, taskB, taskC])"
    by (simp add: newSerial_def)
  have i: "inner (newSerial True [taskA, taskB, taskC]) = [taskA, taskB, taskC]"
    by (simp add: newSerial_def)
  have o: "outcomes [taskA, taskB, taskC] (0::nat)
           = [(taskA, None), (taskB, Some (Err ''disk full'')), (taskC, None)]"
    "run_children [taskA, taskB, taskC] (0::nat) = 16"
    by (simp_all add: taskA_def taskB_def taskC_def)
  from Serial_Execute_ignoreError[OF h, of 0, unfolded i o] show ?thesis
    using h by simp
qed


text \<open>
  C10, as amended. The two divisions by \<open>len(s.inner)\<close> are in the body of the loop over
  \<open>s.inner\<close>, which does not run when the list is empty: \<open>Execute\<close> never divides by
  zero. It returns for every Serial, and on one without children it sets \<open>Progress\<close> to
  100 and returns \<open>nil\<close>.
\<close>

theorem Serial_Execute_total:
  "(\<exists>r. Serial_Execute s w = Inr r)
   \<and> Serial_Execute (s\<lparr>inner := []\<rparr>) w
       = Inr \<lparr>err = None, serial = s\<lparr>inner := [], Progress := 100\<rparr>, world = w,
              trace = [SetProgress 100]\<rparr>"
proof -
  have "\<exists>r. Execute_loop (inner s) s w = Inr r"
    by (rule Execute_loop_returns) simp
  then show ?thesis
    by (simp add: Serial_Execute_def)
qed

text \<open>
  The claim as stated fails on the Serial without children: \<open>Execute\<close> returns \<open>nil\<close>
  there, and no panic.
\<close>

theorem Serial_Execute_empty_counterexample:
  "Serial_Execute (newSerial False []) (0::nat)
     = Inr \<lparr>err = None, serial = (newSerial False [])\<lparr>Progress := 100\<rparr>, world = 0,
            trace = [SetProgress 100]\<rparr>
   \<and> Serial_Execute (newSerial False []) (0::nat) \<noteq> Inl DivideByZero"
  by (simp add: Serial_Execute_def newSerial_def)


lemma Serial_Execute_AC:
  "Serial_Execute (newSerial False [taskA, taskC]) (0::nat)
     = Inr \<lparr>err = None,
            serial = \<lparr>ignoreError = False, hideDetailDisplay = False, inner = [taskA, taskC],
                      startedTasks = 2, Progress = 100,
                      CurTaskSteps = [''- C ... Starting''], Steps = []\<rparr>,
            world = 6,
            trace = [Infof ''+ [ Serial ] - A'', SetProgress 25, PublishTaskBegin taskA,
                     PublishTaskFinish taskA None,
                     Infof ''+ [ Serial ] - C'', SetProgress 75, PublishTaskBegin taskC,
                     PublishTaskFinish taskC None, SetProgress 100]\<rparr>"
  by (simp add: Serial_Execute_def newSerial_def Execute_loop_continue begin_child_def
        child_actions_def provisional_def half_step_def step_lines_def tag_line_def TrimSpace_def
        isSpace_def
        isDisplayTask_def taskA_def taskC_def)

text \<open>
  C2. \<open>Execute\<close> never calls \<open>saveSteps\<close> with \<open>Done\<close>: on two children that both
  succeed it returns \<open>nil\<close> with \<open>Progress\<close> at 100, while the step log \<open>Steps\<close> stays
  empty and the lines of the last child stay tagged \<open>Starting\<close>.
\<close>

theorem Serial_Execute_success_Steps:
  "Serial_Execute (newSerial False [taskA, taskC]) (0::nat)
     = Inr \<lparr>err = None,
            serial = \<lparr>ignoreError = False, hideDetailDisplay = False, inner = [taskA, taskC],
                      startedTasks = 2, Progress = 100,
                      CurTaskSteps = [''- C ... Starting''], Steps = []\<rparr>,
            world = 6,
            trace = [Infof ''+ [ Serial ] - A'', SetProgress 25, PublishTaskBegin taskA,
                     PublishTaskFinish taskA None,
                     Infof ''+ [ Serial ] - C'', SetProgress 75, PublishTaskBegin taskC,
                     PublishTaskFinish taskC None, SetProgress 100]\<rparr>"
  by (rule Serial_Execute_AC)


text \<open>
  C4, as amended. Before each child runs, \<open>Progress\<close> is set to
  \<open>started * 100 / N + half_step\<close> with \<open>half_step = max(1, (100 / N) / 2)\<close>, where
  \<open>started\<close> is the value of the counter before its increment: the number of children
  begun before this one, on top of the value the counter had at the call. The writes to
  \<open>Progress\<close> and the begin events alternate in the run, and after the run the counter
  has grown by the number of children begun.
\<close>

theorem Serial_Execute_provisional_progress:
  assumes "Serial_Execute s w = Inr r"
  shows "progress_and_begin (trace r)
         = concat (map (\<lambda>i. [SetProgress (provisional (startedTasks s + int i)
                                             (int (length (inner s)))),
                              PublishTaskBegin (inner s ! i)])
                       [0..<length (begun (trace r))])
           @ (if err r = None then [SetProgress 100] else [])
         \<and> startedTasks (serial r) = startedTasks s + int (length (begun (trace r)))"
proof -
  have l: "Execute_loop (inner s) s w = Inr r" using assms by (simp add: Serial_Execute_def)
  have ne: "inner s \<noteq> [] \<longrightarrow> inner s \<noteq> []" by simp
  show ?thesis
    using Execute_loop_progress[OF l ne] Execute_loop_keeps[OF l ne] by simp
qed

lemma Serial_Execute_ABC:
  "Serial_Execute (newSerial False [taskA, taskB, taskC]) (0::nat)
   = Inr \<lparr>err = Some (Err ''disk full''),
          serial = \<lparr>ignoreError = False, hideDetailDisplay = False,
                    inner = [taskA, taskB, taskC], startedTasks = 2, Progress = 49,
                    CurTaskSteps = [''- B ... Error''], Steps = []\<rparr>,
          world = 11,
          trace = [Infof ''+ [ Serial ] - A'', SetProgress 16, PublishTaskBegin taskA,
                   PublishTaskFinish taskA None,
                   Infof ''+ [ Serial ] - B'', SetProgress 49, PublishTaskBegin taskB,
                   PublishTaskFinish taskB (Some (Err ''disk full''))]\<rparr>"
  by (simp add: Serial_Execute_def newSerial_def Execute_loop_continue Execute_loop_stop
        begin_child_def child_actions_def provisional_def half_step_def step_lines_def
        tag_line_def TrimSpace_def isSpace_def isDisplayTask_def taskA_def taskB_def)

theorem Serial_Execute_provisional_progress_witness:
  "Serial_Execute (newSerial False [taskA, taskB, taskC]) (0::nat)
     = Inr (projr (Serial_Execute (newSerial False [taskA, taskB, taskC]) (0::nat)))
   \<and> progress_and_begin
        (trace (projr (Serial_Execute (newSerial False [taskA, taskB, taskC]) (0::nat))))
      = [SetProgress 16, PublishTaskBegin taskA, SetProgress 49, PublishTaskBegin taskB]
   \<and> provisional 0 3 = 16 \<and> provisional 1 3 = 49
   \<and> startedTasks (serial (projr (Serial_Execute (newSerial False [taskA, taskB, taskC])
        (0::nat)))) = 2"
proof -
  have e: "Serial_Execute (newSerial False [taskA, taskB, taskC]) (0::nat)
     = Inr (projr (Serial_Execute (newSerial False [taskA, taskB, taskC]) (0::nat)))"
    by (simp add: Serial_Execute_ABC)
  have p: "provisional 0 3 = 16" "provisional 1 3 = 49"
    by (simp_all add: provisional_def half_step_def)
  note t = Serial_Execute_provisional_progress[OF e, unfolded Serial_Execute_ABC]
  show ?thesis
    unfolding Serial_Execute_ABC
    using t p by (simp add: newSerial_def upt_rec[of 0] upt_rec[of 1])
qed

text \<open>
  The claim as stated counts the current child among those begun. On a new Serial with
  one child the value written before the child runs is 50, where the claim's formula
  gives 150.
\<close>

theorem Serial_Execute_provisional_counterexample:
  "progress_writes (trace (projr (Serial_Execute (newSerial False [taskA]) (0::nat))))
     = [50, 100]
   \<and> 1 * 100 sdiv (1::int) + max 1 ((100 sdiv 1) sdiv 2) = 150
   \<and> provisional 1 1 = 150"
  by (simp add: Serial_Execute_def newSerial_def Execute_loop_continue
        begin_child_def child_actions_def provisional_def half_step_def isDisplayTask_def
        taskA_def)


lemma all_succeed_replicate_taskA: "all_succeed (replicate n taskA) w"
  by (induction n arbitrary: w) (simp_all add: taskA_def)

text \<open>
  C5, as amended. For a Serial as built (\<open>startedTasks\<close> and \<open>Progress\<close> both 0), the
  values that one call of \<open>Execute\<close> assigns to \<open>Progress\<close> never decrease and stay
  within 0..100, and the field ends at the last of them. With fewer than 100 children
  every value assigned before a child runs is below 100, so that 100 is assigned only
  by the statement after the loop: when \<open>Execute\<close> returns \<open>nil\<close>, after every
  child has been run and has returned.
\<close>

theorem Serial_Execute_progress_monotone:
  assumes "startedTasks s = 0" and "Progress s = 0" and "Serial_Execute s w = Inr r"
  shows "sorted (Progress s # progress_writes (trace r))
         \<and> (\<forall>p\<in>set (progress_writes (trace r)). 0 \<le> p \<and> p \<le> 100)
         \<and> Progress (serial r) = last (Progress s # progress_writes (trace r))
         \<and> (length (inner s) < 100 \<longrightarrow>
              (\<forall>i<length (progress_writes (trace r)).
                  progress_writes (trace r) ! i = 100 \<longrightarrow>
                    i = length (inner s) \<and> err r = None \<and> begun (trace r) = inner s
                    \<and> finishes (trace r) = outcomes (inner s) w))"
proof -
  define N where "N = int (length (inner s))"
  define k where "k = length (begun (trace r))"
  define f where "f = (\<lambda>i. provisional (int i) N)"
  have l: "Execute_loop (inner s) s w = Inr r" using assms(3) by (simp add: Serial_Execute_def)
  have ne: "inner s \<noteq> [] \<longrightarrow> inner s \<noteq> []" by simp
  from Execute_loop_prefix[OF l ne] obtain k' where
    k': "k' \<le> length (inner s) \<and> begun (trace r) = take k' (inner s)
         \<and> finishes (trace r) = outcomes (take k' (inner s)) w
         \<and> world r = run_children (take k' (inner s)) w
         \<and> (err r = None \<longrightarrow> k' = length (inner s))" ..
  have kk: "k = k'" using k' by (simp add: k_def)
  have kN: "int k \<le> N" using k' by (simp add: kk N_def)
  have pw: "progress_writes (trace r) = map f [0..<k] @ (if err r = None then [100] else [])"
    using Execute_loop_progress_writes[OF l ne] assms(1) by (simp add: f_def N_def k_def)
  have bound: "0 < f i \<and> f i \<le> 100" if "i < k" for i
  proof -
    have "0 \<le> int i" "int i < N" using that kN by simp_all
    then show ?thesis
      unfolding f_def using provisional_bound(1)[of "int i" N] provisional_pos[of "int i" N]
      by simp
  qed
  have mono: "f i \<le> f j" if "i \<le> j" "j < k" for i j
  proof -
    have "0 \<le> int i" "int i \<le> int j" "0 < N" using that kN by simp_all
    then show ?thesis unfolding f_def by (rule provisional_mono)
  qed
  have s1: "sorted (map f [0..<k])" using mono by (rule sorted_map_upt)
  have inb: "0 < p \<and> p \<le> 100" if "p \<in> set (map f [0..<k])" for p
    using that bound by auto
  have "sorted (0 # map f [0..<k] @ (if err r = None then [100] else []))"
    using s1 inb by (auto simp: sorted_append less_imp_le)
  then have c1: "sorted (Progress s # progress_writes (trace r))"
    by (simp add: pw assms(2))
  have c2: "\<forall>p\<in>set (progress_writes (trace r)). 0 \<le> p \<and> p \<le> 100"
    using inb by (auto simp: pw less_imp_le)
  have c3: "Progress (serial r) = last (Progress s # progress_writes (trace r))"
    using l ne by (rule Execute_loop_final_Progress)
  have c4: "i = length (inner s) \<and> err r = None \<and> begun (trace r) = inner s
            \<and> finishes (trace r) = outcomes (inner s) w"
    if small: "length (inner s) < 100" and i: "i < length (progress_writes (trace r))"
      and v: "progress_writes (trace r) ! i = 100" for i
  proof -
    have "\<not> i < k"
    proof
      assume ik: "i < k"
      then have "0 \<le> int i" "int i < N" "N < 100" using kN small by (simp_all add: N_def)
      then have "f i < 100" unfolding f_def by (rule provisional_bound(2))
      moreover have "progress_writes (trace r) ! i = f i"
        using ik by (simp add: pw nth_append)
      ultimately show False using v by simp
    qed
    moreover have "length (progress_writes (trace r)) = k + (if err r = None then 1 else 0)"
      by (simp add: pw)
    ultimately have e: "err r = None" and "i = k"
      using i by (auto split: if_splits)
    then show ?thesis using k' kk by simp
  qed
  show ?thesis using c1 c2 c3 c4 by simp
qed

theorem Serial_Execute_progress_monotone_witness:
  "startedTasks (newSerial False [taskA, taskC]) = 0
   \<and> Progress (newSerial False [taskA, taskC]) = 0
   \<and> Serial_Execute (newSerial False [taskA, taskC]) (0::nat)
        = Inr (projr (Serial_Execute (newSerial False [taskA, taskC]) (0::nat)))
   \<and> progress_writes (trace (projr (Serial_Execute (newSerial False [taskA, taskC]) (0::nat))))
        = [25, 75, 100]
   \<and> sorted (Progress (newSerial False [taskA, taskC])
        # progress_writes (trace (projr (Serial_Execute (newSerial False [taskA, taskC])
            (0::nat)))))
   \<and> Progress (serial (projr (Serial_Execute (newSerial False [taskA, taskC]) (0::nat))))
        = last (Progress (newSerial False [taskA, taskC])
             # progress_writes (trace (projr (Serial_Execute (newSerial False [taskA, taskC])
                 (0::nat)))))
   \<and> length (inner (newSerial False [taskA, taskC])) < 100
   \<and> progress_writes (trace (projr (Serial_Execute (newSerial False [taskA, taskC])
        (0::nat)))) ! 2 = 100
   \<and> 2 = length (inner (newSerial False [taskA, taskC]))
   \<and> err (projr (Serial_Execute (newSerial False [taskA, taskC]) (0::nat))) = None
   \<and> begun (trace (projr (Serial_Execute (newSerial False [taskA, taskC]) (0::nat))))
        = inner (newSerial False [taskA, taskC])"
proof -
  have h: "startedTasks (newSerial False [taskA, taskC]) = 0"
    "Progress (newSerial False [taskA, taskC]) = 0"
    "Serial_Execute (newSerial False [taskA, taskC]) (0::nat)
        = Inr (projr (Serial_Execute (newSerial False [taskA, taskC]) (0::nat)))"
    by (simp_all add: newSerial_def Serial_Execute_AC[unfolded newSerial_def])
  have w: "progress_writes
             (trace (projr (Serial_Execute (newSerial False [taskA, taskC]) (0::nat))))
           = [25, 75, 100]"
    by (simp add: Serial_Execute_AC)
  have i: "inner (newSerial False [taskA, taskC]) = [taskA, taskC]"
    by (simp add: newSerial_def)
  have r: "err (projr (Serial_Execute (newSerial False [taskA, taskC]) (0::nat))) = None"
    "begun (trace (projr (Serial_Execute (newSerial False [taskA, taskC]) (0::nat))))
       = [taskA, taskC]"
    by (simp_all add: Serial_Execute_AC)
  from Serial_Execute_progress_monotone[OF h] show ?thesis
    using h w i r by simp
qed

text \<open>
  The claim as stated fails in three ways. With 100 children that all succeed, the value
  written before the last child runs is already 100. With \<open>ignoreError\<close> set, \<open>Progress\<close>
  reaches 100 although the only child failed. And on a Serial that has been executed
  before, the second call takes \<open>Progress\<close> from 100 to 150 and back to 100.
\<close>

theorem Serial_Execute_progress_counterexample:
  "progress_writes (trace (projr (Serial_Execute (newSerial False (replicate 100 taskA))
       (0::nat)))) ! 99 = 100
   \<and> length (progress_writes (trace (projr (Serial_Execute
       (newSerial False (replicate 100 taskA)) (0::nat))))) = 101
   \<and> Progress (serial (projr (Serial_Execute (newSerial True [taskB]) (0::nat)))) = 100
   \<and> finishes (trace (projr (Serial_Execute (newSerial True [taskB]) (0::nat))))
       = [(taskB, Some (Err ''disk full''))]
   \<and> Progress (serial (projr (Serial_Execute (newSerial False [taskA]) (0::nat)))) = 100
   \<and> progress_writes (trace (projr (Serial_Execute
       (serial (projr (Serial_Execute (newSerial False [taskA]) (0::nat)))) (1::nat))))
       = [150, 100]"
proof -
  let ?S = "newSerial False (replicate 100 taskA) :: nat Serial"
  have i: "inner ?S = replicate 100 taskA" "startedTasks ?S = 0"
    by (simp_all add: newSerial_def)
  have "replicate 100 taskA \<noteq> [] \<longrightarrow> inner ?S \<noteq> []" by (simp add: i)
  from Execute_loop_all_succeed[where ts="replicate 100 taskA" and w=0 and s="?S",
      OF all_succeed_replicate_taskA this]
  obtain r where r: "Execute_loop (replicate 100 taskA) ?S 0 = Inr r \<and> err r = None
      \<and> Progress (serial r) = 100 \<and> begun (trace r) = replicate 100 taskA
      \<and> world r = run_children (replicate 100 taskA) 0" ..
  have e: "Serial_Execute ?S 0 = Inr r" using r by (simp add: Serial_Execute_def i)
  have ne: "inner ?S \<noteq> [] \<longrightarrow> inner ?S \<noteq> []" by simp
  have el: "Execute_loop (inner ?S) ?S 0 = Inr r" using r by (simp add: i)
  have pw: "progress_writes (trace r)
            = map (\<lambda>i. provisional (int i) 100) [0..<100] @ [100]"
    using Execute_loop_progress_writes[OF el ne] r by (simp add: i)
  have "provisional 99 100 = 100" by (simp add: provisional_nonneg)
  then have a: "progress_writes (trace r) ! 99 = 100"
    by (simp add: pw nth_append)
  have b: "length (progress_writes (trace r)) = 101" by (simp add: pw)
  have c: "Serial_Execute (newSerial True [taskB]) (0::nat)
      = Inr \<lparr>err = None,
             serial = \<lparr>ignoreError = True, hideDetailDisplay = False, inner = [taskB],
                       startedTasks = 1, Progress = 100,
                       CurTaskSteps = [''- B ... Starting''], Steps = []\<rparr>,
             world = 10,
             trace = [Infof ''+ [ Serial ] - B'', SetProgress 50, PublishTaskBegin taskB,
                      PublishTaskFinish taskB (Some (Err ''disk full'')), SetProgress 100]\<rparr>"
    by (simp add: Serial_Execute_def newSerial_def Execute_loop_continue
        begin_child_def child_actions_def provisional_def half_step_def step_lines_def
        tag_line_def TrimSpace_def isSpace_def isDisplayTask_def taskB_def)
  have d: "Serial_Execute (newSerial False [taskA]) (0::nat)
      = Inr \<lparr>err = None,
             serial = \<lparr>ignoreError = False, hideDetailDisplay = False, inner = [taskA],
                       startedTasks = 1, Progress = 100,
                       CurTaskSteps = [''- A ... Starting''], Steps = []\<rparr>,
             world = 1,
             trace = [Infof ''+ [ Serial ] - A'', SetProgress 50, PublishTaskBegin taskA,
                      PublishTaskFinish taskA None, SetProgress 100]\<rparr>"
    by (simp add: Serial_Execute_def newSerial_def Execute_loop_continue
        begin_child_def child_actions_def provisional_def half_step_def step_lines_def
        tag_line_def TrimSpace_def isSpace_def isDisplayTask_def taskA_def)
  have f: "progress_writes (trace (projr (Serial_Execute
             \<lparr>ignoreError = False, hideDetailDisplay = False, inner = [taskA],
              startedTasks = 1, Progress = 100,
              CurTaskSteps = [''- A ... Starting''], Steps = []\<rparr> (1::nat))))
           = [150, 100]"
    by (simp add: Serial_Execute_def Execute_loop_continue
        begin_child_def child_actions_def provisional_def half_step_def isDisplayTask_def
        taskA_def)
  show ?thesis
    using a b f by (simp add: e c d)
qed


lemma Rollback_loop_chain:
  "n \<le> length ts \<Longrightarrow> Rollback_loop ts n w = rollback_chain (rev (take n ts)) w"
proof (induction n arbitrary: w)
  case 0
  show ?case by simp
next
  case (Suc n)
  then have "take (Suc n) ts = take n ts @ [ts ! n]" by (simp add: take_Suc_conv_app_nth)
  then show ?case
    using Suc by (simp split: prod.splits option.splits)
qed

lemma rollback_chain_all:
  "all_rolled_back ts w \<Longrightarrow> rollback_chain ts w = (None, run_rollbacks ts w)"
  by (induction ts arbitrary: w) (simp_all add: case_prod_beta)

lemma rollback_chain_stop:
  assumes "all_rolled_back pre w" and "fst (Rollback t (run_rollbacks pre w)) = Some e"
  shows "rollback_chain (pre @ t # post) w = (Some e, snd (Rollback t (run_rollbacks pre w)))"
  using assms by (induction pre arbitrary: w) (simp_all add: case_prod_beta)

text \<open>
  C6. \<open>Serial.Rollback\<close> walks the children in reverse order of insertion and stops at
  the first error. It does not look at the fields that \<open>Execute\<close> writes, so that every
  child is rolled back whether or not it was ever started. If all rollbacks succeed the
  outside state is that of all of them, last child first; if the rollback of \<open>t\<close> fails
  after those of the children behind it, the error of \<open>t\<close> is returned and the outside
  state is the one \<open>t\<close> left: the children in front of \<open>t\<close> are not rolled back.
\<close>

theorem Serial_Rollback_reverse_order:
  "Serial_Rollback s w = rollback_chain (rev (inner s)) w
   \<and> Serial_Rollback (s\<lparr>startedTasks := n, Progress := p, CurTaskSteps := c, Steps := l\<rparr>) w
       = Serial_Rollback s w
   \<and> (all_rolled_back (rev (inner s)) w \<longrightarrow>
        Serial_Rollback s w = (None, run_rollbacks (rev (inner s)) w))
   \<and> (inner s = pre @ t # post \<and> all_rolled_back (rev post) w
        \<and> fst (Rollback t (run_rollbacks (rev post) w)) = Some e \<longrightarrow>
        Serial_Rollback s w = (Some e, snd (Rollback t (run_rollbacks (rev post) w))))"
proof -
  have a: "Serial_Rollback s w = rollback_chain (rev (inner s)) w"
    by (simp add: Serial_Rollback_def Rollback_loop_chain)
  have b: "Serial_Rollback (s\<lparr>startedTasks := n, Progress := p, CurTaskSteps := c,
             Steps := l\<rparr>) w = Serial_Rollback s w"
    by (simp add: Serial_Rollback_def)
  have c: "Serial_Rollback s w = (None, run_rollbacks (rev (inner s)) w)"
    if "all_rolled_back (rev (inner s)) w"
    using that by (simp add: a rollback_chain_all)
  have d: "Serial_Rollback s w = (Some e, snd (Rollback t (run_rollbacks (rev post) w)))"
    if "inner s = pre @ t # post" "all_rolled_back (rev post) w"
      "fst (Rollback t (run_rollbacks (rev post) w)) = Some e"
  proof -
    have "rev (inner s) = rev post @ t # rev pre" using that(1) by simp
    then show ?thesis
      using rollback_chain_stop[OF that(2,3), of "rev pre"] by (simp add: a)
  qed
  show ?thesis using a b c d by simp
qed

theorem Serial_Rollback_reverse_order_witness:
  "inner (newSerial False [taskA, taskB, taskC]) = [taskA] @ taskB # [taskC]
   \<and> all_rolled_back (rev [taskC]) (0::nat)
   \<and> fst (Rollback taskB (run_rollbacks (rev [taskC]) 0)) = Some ErrUnsupportedRollback
   \<and> Serial_Rollback (newSerial False [taskA, taskB, taskC]) (0::nat)
        = (Some ErrUnsupportedRollback, 1500)
   \<and> all_rolled_back (rev (inner (newSerial False [taskA, taskC]))) (0::nat)
   \<and> Serial_Rollback (newSerial False [taskA, taskC]) (0::nat) = (None, 600)"
proof -
  have h: "inner (newSerial False [taskA, taskB, taskC]) = [taskA] @ taskB # [taskC]
    \<and> all_rolled_back (rev [taskC]) (0::nat)
    \<and> fst (Rollback taskB (run_rollbacks (rev [taskC]) 0)) = Some ErrUnsupportedRollback"
    by (simp add: newSerial_def taskB_def taskC_def)
  have g: "all_rolled_back (rev (inner (newSerial False [taskA, taskC]))) (0::nat)"
    by (simp add: newSerial_def taskA_def taskC_def)
  have v: "snd (Rollback taskB (run_rollbacks (rev [taskC]) (0::nat))) = 1500"
    "run_rollbacks (rev (inner (newSerial False [taskA, taskC]))) (0::nat) = 600"
    by (simp_all add: newSerial_def taskA_def taskB_def taskC_def)
  have "Serial_Rollback (newSerial False [taskA, taskB, taskC]) (0::nat)
        = (Some ErrUnsupportedRollback, snd (Rollback taskB (run_rollbacks (rev [taskC]) 0)))"
    by (rule Serial_Rollback_reverse_order[where s="newSerial False [taskA, taskB, taskC]"
        and w=0 and pre="[taskA]" and t=taskB and post="[taskC]"
        and e=ErrUnsupportedRollback, THEN conjunct2, THEN conjunct2, THEN conjunct2,
        THEN mp, OF h])
  then have "Serial_Rollback (newSerial False [taskA, taskB, taskC]) (0::nat)
        = (Some ErrUnsupportedRollback, 1500)"
    by (simp only: v)
  moreover have "Serial_Rollback (newSerial False [taskA, taskC]) (0::nat)
        = (None, run_rollbacks (rev (inner (newSerial False [taskA, taskC]))) 0)"
    by (rule Serial_Rollback_reverse_order[where s="newSerial False [taskA, taskC]"
        and w=0, THEN conjunct2, THEN conjunct2, THEN conjunct1, THEN mp, OF g])
  then have "Serial_Rollback (newSerial False [taskA, taskC]) (0::nat) = (None, 600)"
    by (simp only: v)
  ultimately show ?thesis using h g by simp
qed


declare decimal.simps [simp del]

lemma status_line_nonempty: "status_line sd \<noteq> ''''"
  by (simp add: status_line_def)

lemma handleStepDisplay_eq:
  "handleStepDisplay sd c =
     (if progress sd > 0 then status_line sd else '''',
      c\<lparr>allStepsCount := allStepsCount c + 1,
        finishedSteps := finishedSteps c + (if progress sd = 100 then 1 else 0)\<rparr>)"
  by (simp add: handleStepDisplay_def status_line_def Let_def)

lemma psd_loop_eq:
  "psd_loop ts steps c =
     (steps @ shown (nested_steps (Parallel i h ts)),
      c\<lparr>allStepsCount := allStepsCount c + int (length (nested_steps (Parallel i h ts))),
        finishedSteps := finishedSteps c
           + int (finished_count (nested_steps (Parallel i h ts)))\<rparr>)"
proof (induction ts arbitrary: steps c)
  case Nil
  show ?case by (simp add: nested_steps_def shown_def finished_count_def)
next
  case (Cons t ts)
  show ?case
  proof (cases "dyn t")
    case (IsStepDisplay sd)
    then show ?thesis
      using Cons.IH
      by (simp add: handleStepDisplay_eq status_line_nonempty nested_steps_def shown_def
            finished_count_def)
  qed (use Cons.IH in \<open>simp_all add: nested_steps_def shown_def finished_count_def\<close>)
qed

lemma ComputeProgress_loop_eq:
  "ComputeProgress_loop ts stepsStatus c =
     (stepsStatus @ concat (map lines_of ts),
      c\<lparr>allStepsCount := allStepsCount c + int (length (concat (map steps_of ts))),
        finishedSteps := finishedSteps c + int (finished_count (concat (map steps_of ts)))\<rparr>)"
proof (induction ts arbitrary: stepsStatus c)
  case Nil
  show ?case by (simp add: finished_count_def)
next
  case (Cons t ts)
  show ?case
  proof (cases "dyn t")
    case (IsStepDisplay sd)
    then show ?thesis
      using Cons.IH
      by (simp add: handleStepDisplay_eq status_line_nonempty lines_of_def steps_of_def
            shown_def finished_count_def)
  next
    case (IsParallelStepDisplay pre par)
    obtain i h cs where par: "par = Parallel i h cs" by (cases par)
    show ?thesis
      using Cons.IH IsParallelStepDisplay
      by (simp add: par psd_loop_eq[of cs "[]" c i h] lines_of_def steps_of_def
            finished_count_def)
  qed (use Cons.IH in \<open>simp_all add: lines_of_def steps_of_def finished_count_def\<close>)
qed

text \<open>
  C9. \<open>ComputeProgress\<close> over a Serial with \<open>M\<close> steps, \<open>F\<close> of them at progress 100,
  returns \<open>F * 100 / M\<close> rounded down, and 0 when there is no step. Its lines are, child
  by child: for a \<open>StepDisplay\<close> its status line when its progress is above 0; for a
  \<open>ParallelStepDisplay\<close> its prefix followed by the status lines of its nested steps
  with progress above 0, and nothing at all when there is no such nested step.
\<close>

theorem ComputeProgress_result:
  "ComputeProgress s =
     (concat (map lines_of (inner s)),
      if length (all_steps s) = 0 then 0
      else int (finished_count (all_steps s)) * 100 div int (length (all_steps s)))"
proof -
  have "int (finished_count (all_steps s)) * 100 sdiv int (length (all_steps s))
        = int (finished_count (all_steps s)) * 100 div int (length (all_steps s))"
    if "length (all_steps s) \<noteq> 0"
    using that by (intro sdiv_nonneg) simp_all
  then show ?thesis
    by (simp add: ComputeProgress_def ComputeProgress_loop_eq all_steps_def)
qed

theorem ComputeProgress_result_witness:
  "ComputeProgress
     (newSerial False [stepDownload, stepIdle, taskA, stepHosts, stepInit, stepCopy])
   = ([''Download ... 100%'', ''Hosts'', ''Copy ... 37%'', ''Download ... 100%'',
       ''Copy ... 37%''], 25)
   \<and> length (all_steps
        (newSerial False [stepDownload, stepIdle, taskA, stepHosts, stepInit, stepCopy])) = 8
   \<and> finished_count (all_steps
        (newSerial False [stepDownload, stepIdle, taskA, stepHosts, stepInit, stepCopy])) = 2"
proof -
  have a: "all_steps
        (newSerial False [stepDownload, stepIdle, taskA, stepHosts, stepInit, stepCopy])
      = [\<lparr>prefix = ''Download'', progress = 100\<rparr>, \<lparr>prefix = ''Init'', progress = 0\<rparr>,
         \<lparr>prefix = ''Init'', progress = 0\<rparr>, \<lparr>prefix = ''Copy'', progress = 37\<rparr>,
         \<lparr>prefix = ''Init'', progress = 0\<rparr>, \<lparr>prefix = ''Download'', progress = 100\<rparr>,
         \<lparr>prefix = ''Init'', progress = 0\<rparr>, \<lparr>prefix = ''Copy'', progress = 37\<rparr>]"
    by (simp add: all_steps_def steps_of_def nested_steps_def newSerial_def stepDownload_def
          stepIdle_def taskA_def stepHosts_def stepInit_def stepCopy_def)
  have d: "format_d 100 = ''100''" "format_d 37 = ''37''"
    by code_simp+
  have l: "concat (map lines_of
        (inner (newSerial False [stepDownload, stepIdle, taskA, stepHosts, stepInit, stepCopy])))
      = [''Download ... 100%'', ''Hosts'', ''Copy ... 37%'', ''Download ... 100%'',
         ''Copy ... 37%'']"
    by (simp add: lines_of_def shown_def nested_steps_def status_line_def d newSerial_def
          stepDownload_def stepIdle_def taskA_def stepHosts_def stepInit_def stepCopy_def)
  have f: "finished_count (all_steps
        (newSerial False [stepDownload, stepIdle, taskA, stepHosts, stepInit, stepCopy])) = 2"
    unfolding a by (simp add: finished_count_def)
  have n: "length (all_steps
        (newSerial False [stepDownload, stepIdle, taskA, stepHosts, stepInit, stepCopy])) = 8"
    unfolding a by simp
  show ?thesis
    using ComputeProgress_result[of
        "newSerial False [stepDownload, stepIdle, taskA, stepHosts, stepInit, stepCopy]"]
    unfolding l f n by simp
qed


section \<open>Parallel: the steps of a run\<close>

lemma goto_simps [simp]:
  "workers (goto j l c) = (workers c)[j := (workers c ! j)\<lparr>pc := l\<rparr>]"
  "mainpc (goto j l c) = mainpc c"
  "wg (goto j l c) = wg c"
  "mu (goto j l c) = mu c"
  "firstError (goto j l c) = firstError c"
  "shared (goto j l c) = shared c"
  "effects (goto j l c) = effects c"
  "calls (goto j l c) = calls c"
  "stores (goto j l c) = stores c"
  by (simp_all add: goto_def)

lemma main_stepE:
  assumes "main_step m pt c = Some c'"
  obtains
    (add) i where "mainpc c = AtAdd i" and "i < length (par_inner pt)"
      and "c' = c\<lparr>wg := wg c + 1, mainpc := AtGo i\<rparr>"
  | (leave) i where "mainpc c = AtAdd i" and "\<not> i < length (par_inner pt)"
      and "c' = c\<lparr>mainpc := AtWait\<rparr>"
  | (go) i where "mainpc c = AtGo i"
      and "c' = (goto i (case m of CallExecute \<Rightarrow> AtLog | CallRollback \<Rightarrow> AtCall) c)
                  \<lparr>mainpc := AtAdd (i + 1)\<rparr>"
  | (wait) "mainpc c = AtWait" and "wg c = 0"
      and "c' = c\<lparr>mainpc := Returned
                     (case m of
                        CallExecute \<Rightarrow> if par_ignoreError pt then None else firstError c
                      | CallRollback \<Rightarrow> firstError c)\<rparr>"
proof (cases "mainpc c")
  case (AtAdd i)
  with assms show ?thesis
    by (cases "i < length (par_inner pt)") (simp_all add: main_step_def add leave)
next
  case (AtGo i)
  with assms show ?thesis by (simp add: main_step_def go)
next
  case AtWait
  with assms show ?thesis
    by (cases "wg c = 0") (simp_all add: main_step_def wait)
next
  case (Returned r)
  with assms show ?thesis by (simp add: main_step_def)
qed

lemma worker_stepE:
  assumes "worker_step m pt j c = Some c'"
  obtains
    (atlog) "j < length (workers c)" and "pc (workers c ! j) = AtLog"
      and "c' = goto j AtBegin
             (c\<lparr>effects := effects c @
                   (if \<not> isDisplayTask (par_inner pt ! j) \<and> \<not> par_hideDetailDisplay pt
                    then [Infof (''+ [Parallel] - '' @ String (par_inner pt ! j) (shared c))]
                    else [])\<rparr>)"
  | (atbegin) "j < length (workers c)" and "pc (workers c ! j) = AtBegin"
      and "c' = goto j AtCall (c\<lparr>effects := effects c @ [PublishTaskBegin (par_inner pt ! j)]\<rparr>)"
  | (atcall) "j < length (workers c)" and "pc (workers c ! j) = AtCall"
      and "c' = c\<lparr>workers := (workers c)
                       [j := \<lparr>pc = (case m of CallExecute \<Rightarrow> AtFinish | CallRollback \<Rightarrow> AtCheck),
                              werr = fst (invoke m (par_inner pt ! j) (shared c))\<rparr>],
                   shared := snd (invoke m (par_inner pt ! j) (shared c)),
                   calls := calls c @ [j]\<rparr>"
  | (atfinish) "j < length (workers c)" and "pc (workers c ! j) = AtFinish"
      and "c' = goto j AtCheck
             (c\<lparr>effects := effects c
                   @ [PublishTaskFinish (par_inner pt ! j) (werr (workers c ! j))]\<rparr>)"
  | (atcheck) "j < length (workers c)" and "pc (workers c ! j) = AtCheck"
      and "c' = goto j (if werr (workers c ! j) \<noteq> None then AtLock else AtDone) c"
  | (atlock) "j < length (workers c)" and "pc (workers c ! j) = AtLock" and "mu c = None"
      and "c' = goto j AtStore (c\<lparr>mu := Some j\<rparr>)"
  | (atstore) "j < length (workers c)" and "pc (workers c ! j) = AtStore"
      and "c' = goto j AtUnlock
             (c\<lparr>firstError := (if firstError c = None then werr (workers c ! j)
                                else firstError c),
                stores := stores c @ [j]\<rparr>)"
  | (atunlock) "j < length (workers c)" and "pc (workers c ! j) = AtUnlock"
      and "c' = goto j AtDone (c\<lparr>mu := None\<rparr>)"
  | (atdone) "j < length (workers c)" and "pc (workers c ! j) = AtDone"
      and "c' = goto j Exited (c\<lparr>wg := wg c - 1\<rparr>)"
proof -
  have j: "j < length (workers c)"
    using assms by (cases "j < length (workers c)") (simp_all add: worker_step_def Let_def)
  show ?thesis
  proof (cases "pc (workers c ! j)")
    case AtLock
    with assms j show ?thesis
      by (cases "mu c = None") (simp_all add: worker_step_def Let_def atlock)
  next
    case AtCall
    with assms j have "c' = c\<lparr>workers := (workers c)
                       [j := \<lparr>pc = (case m of CallExecute \<Rightarrow> AtFinish | CallRollback \<Rightarrow> AtCheck),
                              werr = fst (invoke m (par_inner pt ! j) (shared c))\<rparr>],
                   shared := snd (invoke m (par_inner pt ! j) (shared c)),
                   calls := calls c @ [j]\<rparr>"
      by (simp add: worker_step_def Let_def case_prod_beta)
    with AtCall j show ?thesis by (intro atcall)
  qed (use assms j in \<open>simp_all add: worker_step_def Let_def atlog atbegin atfinish atcheck atstore atunlock atdone\<close>)
qed

lemma stepE:
  assumes "step m pt th c = Some c'"
  obtains (main) "th = Main" and "main_step m pt c = Some c'"
  | (worker) j where "th = Worker j" and "worker_step m pt j c = Some c'"
  using assms by (cases th) (simp_all add: step_def)

lemma nth_update_if: "j < length xs \<Longrightarrow> xs[i := x] ! j = (if i = j then x else xs ! j)"
  by (cases "i = j") simp_all

lemma sum_list_map_update:
  fixes f :: "'a \<Rightarrow> nat"
  shows "j < length xs \<Longrightarrow>
         sum_list (map f (xs[j := x])) + f (xs ! j) = sum_list (map f xs) + f x"
proof (induction xs arbitrary: j)
  case Nil
  then show ?case by simp
next
  case (Cons y ys)
  show ?case
  proof (cases j)
    case 0
    then show ?thesis by simp
  next
    case (Suc k)
    with Cons.prems have "k < length ys" by simp
    from Cons.IH[OF this] show ?thesis using Suc by simp
  qed
qed

subsection \<open>The invariants hold at the start\<close>

lemma start_invs:
  "inv_shape pt (start pt w)" "inv_spawn (start pt w)" "inv_wg (start pt w)"
  "inv_mu (start pt w)" "inv_err (start pt w)" "inv_stores (start pt w)"
  "inv_calls m pt w (start pt w)" "inv_ret m pt (start pt w)"
  by (simp_all add: start_def inv_shape_def inv_spawn_def inv_wg_def inv_mu_def inv_err_def
        inv_stores_def inv_calls_def inv_ret_def spawned_def active_def stored_def called_def
        sum_list_replicate)

subsection \<open>The invariants are kept by every step\<close>

lemma inv_shape_step:
  assumes "step m pt th c = Some c'" and "inv_shape pt c"
  shows "inv_shape pt c'"
  using assms(1)
proof (cases rule: stepE)
  case main
  from main(2) show ?thesis
    using assms(2) by (cases rule: main_stepE) (auto simp: inv_shape_def)
next
  case (worker j)
  from worker(2) show ?thesis
    using assms(2) by (cases rule: worker_stepE) (auto simp: inv_shape_def)
qed

lemma inv_spawn_step:
  assumes "step m pt th c = Some c'" and "inv_shape pt c" and "inv_spawn c"
  shows "inv_spawn c'"
  using assms(1)
proof (cases rule: stepE)
  case main
  from main(2) show ?thesis
  proof (cases rule: main_stepE)
    case (go i)
    then show ?thesis
      using assms(2,3)
      by (cases m) (auto simp: inv_spawn_def inv_shape_def spawned_def nth_update_if)
  next
    case (leave i)
    then show ?thesis
      using assms(2,3) by (auto simp: inv_spawn_def inv_shape_def spawned_def)
  qed (use assms(2,3) in \<open>auto simp: inv_spawn_def spawned_def\<close>)
next
  case (worker j)
  from worker(2) show ?thesis
    using assms(3)
    by (cases rule: worker_stepE)
      (auto simp: inv_spawn_def spawned_def nth_update_if split: call.splits)
qed

lemma active_update:
  assumes "j < length ws"
  shows "int (sum_list (map active (ws[j := x])))
         = int (sum_list (map active ws)) - int (active (ws ! j)) + int (active x)"
  using sum_list_map_update[OF assms, of active x] by linarith

lemma inv_wg_step:
  assumes "step m pt th c = Some c'" and "inv_shape pt c" and "inv_spawn c" and "inv_wg c"
  shows "inv_wg c'"
  using assms(1)
proof (cases rule: stepE)
  case main
  from main(2) show ?thesis
  proof (cases rule: main_stepE)
    case (go i)
    have i: "i < length (workers c)" using assms(2) go(1) by (simp add: inv_shape_def)
    then have "pc (workers c ! i) = NotStarted"
      using assms(3) go(1) by (simp add: inv_spawn_def spawned_def)
    then show ?thesis
      using assms(4) go i by (cases m) (simp_all add: inv_wg_def active_update active_def)
  qed (use assms(4) in \<open>auto simp: inv_wg_def\<close>)
next
  case (worker j)
  from worker(2) show ?thesis
    using assms(4)
    by (cases rule: worker_stepE)
      (auto simp: inv_wg_def active_update active_def split: call.splits)
qed

lemma inv_mu_holder:
  assumes "inv_mu c" and "j < length (workers c)"
  shows "(mu c = Some j) = (pc (workers c ! j) = AtStore \<or> pc (workers c ! j) = AtUnlock)"
  using assms unfolding inv_mu_def by (elim conjE allE[of _ j]) simp

lemma inv_mu_step:
  assumes "step m pt th c = Some c'" and "inv_shape pt c" and "inv_spawn c" and "inv_mu c"
  shows "inv_mu c'"
  using assms(1)
proof (cases rule: stepE)
  case main
  from main(2) show ?thesis
  proof (cases rule: main_stepE)
    case (go i)
    have i: "i < length (workers c)" using assms(2) go(1) by (simp add: inv_shape_def)
    then have "pc (workers c ! i) = NotStarted"
      using assms(3) go(1) by (simp add: inv_spawn_def spawned_def)
    then show ?thesis
      using assms(4) go i by (cases m) (auto simp: inv_mu_def nth_update_if)
  qed (use assms(4) in \<open>auto simp: inv_mu_def\<close>)
next
  case (worker j)
  from worker(2) show ?thesis
  proof (cases rule: worker_stepE)
    case atunlock
    then have "mu c = Some j" using inv_mu_holder[OF assms(4), of j] by simp
    then show ?thesis
      using assms(4) atunlock by (auto simp: inv_mu_def nth_update_if)
  qed (use assms(4) in \<open>auto simp: inv_mu_def nth_update_if split: call.splits\<close>)
qed

lemma inv_err_step:
  assumes "step m pt th c = Some c'" and "inv_err c"
  shows "inv_err c'"
  using assms(1)
proof (cases rule: stepE)
  case main
  from main(2) show ?thesis
    using assms(2)
    by (cases rule: main_stepE)
      (auto simp: inv_err_def nth_update_if split: call.splits if_splits)
next
  case (worker j)
  from worker(2) show ?thesis
    using assms(2)
    by (cases rule: worker_stepE)
      (auto simp: inv_err_def nth_update_if split: call.splits if_splits)
qed

text \<open>
  A step that changes one worker without changing whether it has stored its error, or
  whether it has called its child, keeps the two histories right.
\<close>

lemma inv_stores_update:
  assumes "inv_stores c" and "j < length (workers c)"
    and "stored x = stored (workers c ! j)"
    and "stored (workers c ! j) \<longrightarrow> werr x = werr (workers c ! j)"
    and "workers c' = (workers c)[j := x]" and "stores c' = stores c"
    and "firstError c' = firstError c"
  shows "inv_stores c'"
proof -
  have s: "stored (workers c' ! k) = stored (workers c ! k)" if "k < length (workers c)" for k
    using that assms(3) by (simp add: assms(5) nth_update_if)
  have e: "werr (workers c' ! k) = werr (workers c ! k)" if "k \<in> set (stores c)" for k
  proof -
    from that assms(1) have "k < length (workers c)" "stored (workers c ! k)"
      by (simp_all add: inv_stores_def)
    then show ?thesis using assms(4) by (simp add: assms(5) nth_update_if)
  qed
  have "set (stores c') = {k. k < length (workers c') \<and> stored (workers c' ! k)}"
    using assms(1) s by (auto simp: inv_stores_def assms(5,6))
  moreover have "firstError c'
                 = (if stores c' = [] then None else werr (workers c' ! hd (stores c')))"
  proof (cases "stores c")
    case Nil
    then show ?thesis using assms(1) by (simp add: inv_stores_def assms(6,7))
  next
    case (Cons k ks)
    then have "k \<in> set (stores c)" by simp
    from e[OF this] show ?thesis using assms(1) Cons by (simp add: inv_stores_def assms(6,7))
  qed
  moreover have "distinct (stores c')" using assms(1) by (simp add: inv_stores_def assms(6))
  ultimately show ?thesis by (simp add: inv_stores_def)
qed

lemma inv_stores_goto:
  assumes "inv_stores c" and "j < length (workers c)"
    and "stored ((workers c ! j)\<lparr>pc := l\<rparr>) = stored (workers c ! j)"
    and "workers c0 = workers c" and "stores c0 = stores c" and "firstError c0 = firstError c"
  shows "inv_stores (goto j l c0)"
  using assms(1,2,3)
  by (rule inv_stores_update) (simp_all add: assms(4,5,6))

lemma inv_stores_step:
  assumes "step m pt th c = Some c'" and "inv_shape pt c" and "inv_spawn c" and "inv_err c"
    and "inv_stores c"
  shows "inv_stores c'"
  using assms(1)
proof (cases rule: stepE)
  case main
  from main(2) show ?thesis
  proof (cases rule: main_stepE)
    case (go i)
    have i: "i < length (workers c)" using assms(2) go(1) by (simp add: inv_shape_def)
    then have n: "pc (workers c ! i) = NotStarted"
      using assms(3) go(1) by (simp add: inv_spawn_def spawned_def)
    have "inv_stores (goto i (case m of CallExecute \<Rightarrow> AtLog | CallRollback \<Rightarrow> AtCall) c)"
      using assms(5) i by (rule inv_stores_goto) (simp_all add: stored_def n split: call.splits)
    then show ?thesis by (simp add: go(2) inv_stores_def)
  qed (use assms(5) in \<open>simp_all add: inv_stores_def\<close>)
next
  case (worker j)
  from worker(2) show ?thesis
  proof (cases rule: worker_stepE)
    case atlog
    show ?thesis unfolding atlog(3)
      using assms(5) atlog(1) by (rule inv_stores_goto) (simp_all add: stored_def atlog(2))
  next
    case atbegin
    show ?thesis unfolding atbegin(3)
      using assms(5) atbegin(1) by (rule inv_stores_goto) (simp_all add: stored_def atbegin(2))
  next
    case atcall
    show ?thesis
      using assms(5) atcall(1)
      by (rule inv_stores_update) (simp_all add: atcall(3) stored_def atcall(2) split: call.splits)
  next
    case atfinish
    show ?thesis unfolding atfinish(3)
      using assms(5) atfinish(1) by (rule inv_stores_goto) (simp_all add: stored_def atfinish(2))
  next
    case atcheck
    show ?thesis unfolding atcheck(3)
      using assms(5) atcheck(1) by (rule inv_stores_goto) (simp_all add: stored_def atcheck(2))
  next
    case atlock
    show ?thesis unfolding atlock(4)
      using assms(5) atlock(1) by (rule inv_stores_goto) (simp_all add: stored_def atlock(2))
  next
    case atunlock
    show ?thesis unfolding atunlock(3)
      using assms(5) atunlock(1) by (rule inv_stores_goto) (simp_all add: stored_def atunlock(2))
  next
    case atdone
    show ?thesis unfolding atdone(3)
      using assms(5) atdone(1) by (rule inv_stores_goto) (simp_all add: stored_def atdone(2))
  next
    case atstore
    have e: "werr (workers c ! j) \<noteq> None"
      using assms(4) atstore(1,2) by (simp add: inv_err_def)
    have nj: "j \<notin> set (stores c)"
      using assms(5) atstore(2) by (simp add: inv_stores_def stored_def)
    have w: "werr (workers c' ! k) = werr (workers c ! k)" if "k < length (workers c)" for k
      using that by (simp add: atstore(3) nth_update_if)
    have s: "stored (workers c' ! k) = (k = j \<or> stored (workers c ! k))"
      if "k < length (workers c)" for k
      using that e atstore(2) by (auto simp: atstore(3) nth_update_if stored_def)
    have "distinct (stores c')" using assms(5) nj by (simp add: atstore(3) inv_stores_def)
    moreover have "set (stores c') = {k. k < length (workers c') \<and> stored (workers c' ! k)}"
    proof -
      have "set (stores c') = insert j (set (stores c))" by (simp add: atstore(3))
      also have "\<dots> = insert j {k. k < length (workers c) \<and> stored (workers c ! k)}"
        using assms(5) by (simp add: inv_stores_def)
      also have "\<dots> = {k. k < length (workers c) \<and> (k = j \<or> stored (workers c ! k))}"
        using atstore(1) by auto
      also have "\<dots> = {k. k < length (workers c') \<and> stored (workers c' ! k)}"
        using s by (auto simp: atstore(3))
      finally show ?thesis .
    qed
    moreover have "firstError c'
                   = (if stores c' = [] then None else werr (workers c' ! hd (stores c')))"
    proof (cases "stores c")
      case Nil
      then have "firstError c = None" using assms(5) by (simp add: inv_stores_def)
      then show ?thesis using Nil atstore(1) by (simp add: atstore(3))
    next
      case (Cons k ks)
      then have "k \<in> set (stores c)" by simp
      then have k: "k < length (workers c)" "stored (workers c ! k)"
        using assms(5) by (simp_all add: inv_stores_def)
      then have kj: "k \<noteq> j" using nj \<open>k \<in> set (stores c)\<close> by auto
      have "firstError c = werr (workers c ! k)"
        using assms(5) Cons by (simp add: inv_stores_def)
      moreover have "werr (workers c ! k) \<noteq> None" using k(2) by (simp add: stored_def)
      ultimately show ?thesis using Cons k(1) kj by (auto simp: atstore(3) nth_update_if)
    qed
    ultimately show ?thesis by (simp add: inv_stores_def)
  qed
qed

lemma results_snoc:
  "results m (ts @ [t]) w = results m ts w @ [fst (invoke m t (world_after m ts w))]"
  by (induction ts arbitrary: w) simp_all

lemma world_after_snoc:
  "world_after m (ts @ [t]) w = snd (invoke m t (world_after m ts w))"
  by (induction ts arbitrary: w) simp_all

lemma length_results [simp]: "length (results m ts w) = length ts"
  by (induction ts arbitrary: w) simp_all

lemma inv_calls_update:
  assumes "inv_calls m pt w c" and "j < length (workers c)"
    and "called x = called (workers c ! j)"
    and "called (workers c ! j) \<longrightarrow> werr x = werr (workers c ! j)"
    and "workers c' = (workers c)[j := x]" and "calls c' = calls c"
    and "shared c' = shared c"
  shows "inv_calls m pt w c'"
proof -
  have s: "called (workers c' ! k) = called (workers c ! k)" if "k < length (workers c)" for k
    using that assms(3) by (simp add: assms(5) nth_update_if)
  have e: "werr (workers c' ! k) = werr (workers c ! k)" if "k \<in> set (calls c)" for k
  proof -
    from that assms(1) have "k < length (workers c)" "called (workers c ! k)"
      by (simp_all add: inv_calls_def)
    then show ?thesis using assms(4) by (simp add: assms(5) nth_update_if)
  qed
  have "set (calls c') = {k. k < length (workers c') \<and> called (workers c' ! k)}"
    using assms(1) s by (auto simp: inv_calls_def assms(5,6))
  moreover have "map (\<lambda>k. werr (workers c' ! k)) (calls c)
                 = map (\<lambda>k. werr (workers c ! k)) (calls c)"
    using e by (intro map_cong) simp_all
  then have "results m (map ((!) (par_inner pt)) (calls c')) w
             = map (\<lambda>k. werr (workers c' ! k)) (calls c')"
    using assms(1) by (simp add: inv_calls_def assms(6))
  moreover have "distinct (calls c')" using assms(1) by (simp add: inv_calls_def assms(6))
  moreover have "shared c' = world_after m (map ((!) (par_inner pt)) (calls c')) w"
    using assms(1) by (simp add: inv_calls_def assms(6,7))
  ultimately show ?thesis by (simp add: inv_calls_def)
qed

lemma inv_calls_goto:
  assumes "inv_calls m pt w c" and "j < length (workers c)"
    and "called ((workers c ! j)\<lparr>pc := l\<rparr>) = called (workers c ! j)"
    and "workers c0 = workers c" and "calls c0 = calls c" and "shared c0 = shared c"
  shows "inv_calls m pt w (goto j l c0)"
  using assms(1,2,3)
  by (rule inv_calls_update) (simp_all add: assms(4,5,6))

lemma inv_calls_step:
  assumes "step m pt th c = Some c'" and "inv_shape pt c" and "inv_spawn c"
    and "inv_calls m pt w c"
  shows "inv_calls m pt w c'"
  using assms(1)
proof (cases rule: stepE)
  case main
  from main(2) show ?thesis
  proof (cases rule: main_stepE)
    case (go i)
    have i: "i < length (workers c)" using assms(2) go(1) by (simp add: inv_shape_def)
    then have n: "pc (workers c ! i) = NotStarted"
      using assms(3) go(1) by (simp add: inv_spawn_def spawned_def)
    have "inv_calls m pt w
            (goto i (case m of CallExecute \<Rightarrow> AtLog | CallRollback \<Rightarrow> AtCall) c)"
      using assms(4) i by (rule inv_calls_goto) (simp_all add: called_def n split: call.splits)
    then show ?thesis by (simp add: go(2) inv_calls_def)
  qed (use assms(4) in \<open>simp_all add: inv_calls_def\<close>)
next
  case (worker j)
  from worker(2) show ?thesis
  proof (cases rule: worker_stepE)
    case atlog
    show ?thesis unfolding atlog(3)
      using assms(4) atlog(1) by (rule inv_calls_goto) (simp_all add: called_def atlog(2))
  next
    case atbegin
    show ?thesis unfolding atbegin(3)
      using assms(4) atbegin(1) by (rule inv_calls_goto) (simp_all add: called_def atbegin(2))
  next
    case atfinish
    show ?thesis unfolding atfinish(3)
      using assms(4) atfinish(1) by (rule inv_calls_goto) (simp_all add: called_def atfinish(2))
  next
    case atcheck
    show ?thesis unfolding atcheck(3)
      using assms(4) atcheck(1) by (rule inv_calls_goto) (simp_all add: called_def atcheck(2))
  next
    case atlock
    show ?thesis unfolding atlock(4)
      using assms(4) atlock(1) by (rule inv_calls_goto) (simp_all add: called_def atlock(2))
  next
    case atstore
    show ?thesis unfolding atstore(3)
      using assms(4) atstore(1) by (rule inv_calls_goto) (simp_all add: called_def atstore(2))
  next
    case atunlock
    show ?thesis unfolding atunlock(3)
      using assms(4) atunlock(1) by (rule inv_calls_goto) (simp_all add: called_def atunlock(2))
  next
    case atdone
    show ?thesis unfolding atdone(3)
      using assms(4) atdone(1) by (rule inv_calls_goto) (simp_all add: called_def atdone(2))
  next
    case atcall
    let ?ts = "map ((!) (par_inner pt)) (calls c)"
    have nj: "j \<notin> set (calls c)"
      using assms(4) atcall(2) by (simp add: inv_calls_def called_def)
    have sh: "shared c = world_after m ?ts w"
      using assms(4) by (simp add: inv_calls_def)
    have s: "called (workers c' ! k) = (k = j \<or> called (workers c ! k))"
      if "k < length (workers c)" for k
      using that atcall(2)
      by (auto simp: atcall(3) nth_update_if called_def split: call.splits)
    have "distinct (calls c')" using assms(4) nj by (simp add: atcall(3) inv_calls_def)
    moreover have "set (calls c') = {k. k < length (workers c') \<and> called (workers c' ! k)}"
    proof -
      have "set (calls c') = insert j (set (calls c))" by (simp add: atcall(3))
      also have "\<dots> = insert j {k. k < length (workers c) \<and> called (workers c ! k)}"
        using assms(4) by (simp add: inv_calls_def)
      also have "\<dots> = {k. k < length (workers c) \<and> (k = j \<or> called (workers c ! k))}"
        using atcall(1) by auto
      also have "\<dots> = {k. k < length (workers c') \<and> called (workers c' ! k)}"
        using s by (auto simp: atcall(3))
      finally show ?thesis .
    qed
    moreover have "shared c' = world_after m (map ((!) (par_inner pt)) (calls c')) w"
      by (simp add: atcall(3) world_after_snoc sh)
    moreover have "results m (map ((!) (par_inner pt)) (calls c')) w
                   = map (\<lambda>k. werr (workers c' ! k)) (calls c')"
    proof -
      have "map (\<lambda>k. werr (workers c' ! k)) (calls c)
            = map (\<lambda>k. werr (workers c ! k)) (calls c)"
      proof (intro map_cong refl)
        fix k assume k: "k \<in> set (calls c)"
        then have "k < length (workers c)" using assms(4) by (simp add: inv_calls_def)
        moreover have "k \<noteq> j" using k nj by auto
        ultimately show "werr (workers c' ! k) = werr (workers c ! k)"
          by (simp add: atcall(3) nth_update_if)
      qed
      moreover have "results m ?ts w = map (\<lambda>k. werr (workers c ! k)) (calls c)"
        using assms(4) by (simp add: inv_calls_def)
      moreover have "werr (workers c' ! j) = fst (invoke m (par_inner pt ! j) (shared c))"
        using atcall(1) by (simp add: atcall(3))
      ultimately show ?thesis
        by (simp add: atcall(3) results_snoc sh)
    qed
    ultimately show ?thesis by (simp add: inv_calls_def)
  qed
qed

lemma inv_ret_step:
  assumes "step m pt th c = Some c'" and "inv_spawn c" and "inv_wg c" and "inv_ret m pt c"
  shows "inv_ret m pt c'"
  using assms(1)
proof (cases rule: stepE)
  case main
  from main(2) show ?thesis
  proof (cases rule: main_stepE)
    case wait
    have z: "sum_list (map active (workers c)) = 0"
      using assms(3) wait(1,2) by (simp add: inv_wg_def)
    have "pc (workers c ! j) = Exited" if j: "j < length (workers c)" for j
    proof -
      have "workers c ! j \<in> set (workers c)" using j by simp
      then have "active (workers c ! j) = 0" using z by simp
      moreover have "pc (workers c ! j) \<noteq> NotStarted"
        using assms(2) j wait(1) by (simp add: inv_spawn_def spawned_def)
      ultimately show ?thesis by (simp add: active_def split: if_splits)
    qed
    then show ?thesis by (cases m) (simp_all add: wait(3) inv_ret_def)
  qed (simp_all add: inv_ret_def)
next
  case (worker j)
  have "mainpc c \<noteq> Returned r" for r
  proof
    assume "mainpc c = Returned r"
    then have e: "\<forall>k<length (workers c). pc (workers c ! k) = Exited"
      using assms(4) by (simp add: inv_ret_def)
    from worker(2) show False
      by (cases rule: worker_stepE) (use e in auto)
  qed
  moreover have "mainpc c' = mainpc c"
    using worker(2) by (cases rule: worker_stepE) simp_all
  ultimately show ?thesis by (simp add: inv_ret_def)
qed

subsection \<open>Runs\<close>

lemma invs_start: "invs m pt w (start pt w)"
  by (simp add: invs_def start_invs)

lemma invs_step:
  assumes "step m pt th c = Some c'" and "invs m pt w c"
  shows "invs m pt w c'"
  using assms(2) unfolding invs_def
  by (auto intro: inv_shape_step[OF assms(1)] inv_spawn_step[OF assms(1)]
        inv_wg_step[OF assms(1)] inv_mu_step[OF assms(1)] inv_err_step[OF assms(1)]
        inv_stores_step[OF assms(1)] inv_calls_step[OF assms(1)] inv_ret_step[OF assms(1)])

lemma invs_run:
  assumes "run m pt sched c = Some c'" and "invs m pt w c"
  shows "invs m pt w c'"
  using assms
proof (induction sched arbitrary: c)
  case Nil
  then show ?case by simp
next
  case (Cons th ths)
  from Cons.prems(1) obtain c1 where c1: "step m pt th c = Some c1" "run m pt ths c1 = Some c'"
    by (cases "step m pt th c") simp_all
  from Cons.IH[OF c1(2) invs_step[OF c1(1) Cons.prems(2)]] show ?case .
qed

subsection \<open>No run gets stuck before the caller has returned\<close>

lemma worker_can_step:
  assumes "j < length (workers c)" and "active (workers c ! j) = 1"
    and "pc (workers c ! j) = AtLock \<longrightarrow> mu c = None"
  shows "worker_step m pt j c \<noteq> None"
  using assms
  by (cases "pc (workers c ! j)")
    (simp_all add: worker_step_def active_def Let_def case_prod_beta)

lemma some_active:
  fixes ws :: "worker list"
  assumes "sum_list (map active ws) \<noteq> 0"
  shows "\<exists>j<length ws. active (ws ! j) = 1"
proof -
  from assms obtain x where x: "x \<in> set ws" "active x \<noteq> 0"
    by (auto simp: sum_list_eq_0_iff)
  then obtain j where "j < length ws" "ws ! j = x" by (auto simp: in_set_conv_nth)
  moreover have "active x = 1" using x(2) by (simp add: active_def split: if_splits)
  ultimately show ?thesis by auto
qed

lemma never_stuck:
  assumes "invs m pt w c" and "\<not> returned c"
  shows "\<exists>th. enabled m pt c th"
proof (cases "mainpc c")
  case (AtAdd i)
  then have "enabled m pt c Main" by (simp add: enabled_def step_def main_step_def)
  then show ?thesis ..
next
  case (AtGo i)
  then have "enabled m pt c Main" by (simp add: enabled_def step_def main_step_def)
  then show ?thesis ..
next
  case (Returned r)
  with assms(2) show ?thesis by (simp add: returned_def)
next
  case AtWait
  show ?thesis
  proof (cases "wg c = 0")
    case True
    with AtWait have "enabled m pt c Main" by (simp add: enabled_def step_def main_step_def)
    then show ?thesis ..
  next
    case False
    have "inv_wg c" "inv_mu c" using assms(1) by (simp_all add: invs_def)
    then have "sum_list (map active (workers c)) \<noteq> 0"
      using False AtWait by (simp add: inv_wg_def)
    then obtain j where j: "j < length (workers c)" "active (workers c ! j) = 1"
      using some_active by blast
    show ?thesis
    proof (cases "pc (workers c ! j) = AtLock \<and> mu c \<noteq> None")
      case False
      then have "worker_step m pt j c \<noteq> None"
        using j by (intro worker_can_step) auto
      then have "enabled m pt c (Worker j)" by (simp add: enabled_def step_def)
      then show ?thesis ..
    next
      case True
      then obtain k where k: "mu c = Some k" by auto
      then have kl: "k < length (workers c)" using \<open>inv_mu c\<close> by (simp add: inv_mu_def)
      from inv_mu_holder[OF \<open>inv_mu c\<close> kl] k
      have "pc (workers c ! k) = AtStore \<or> pc (workers c ! k) = AtUnlock" by simp
      then have "worker_step m pt k c \<noteq> None"
        using kl by (intro worker_can_step) (auto simp: active_def)
      then have "enabled m pt c (Worker k)" by (simp add: enabled_def step_def)
      then show ?thesis ..
    qed
  qed
qed

subsection \<open>Every run is short\<close>

lemma rank_worker_update:
  assumes "j < length ws"
  shows "sum_list (map rank_worker (ws[j := x])) + rank_worker (ws ! j)
         = sum_list (map rank_worker ws) + rank_worker x"
  using assms by (rule sum_list_map_update)

lemma rank_goto:
  assumes "j < length (workers c)" and "rank_worker (workers c ! j) < rank_worker x"
    and "workers c' = (workers c)[j := x]" and "mainpc c' = mainpc c"
  shows "rank c < rank c'"
  using rank_worker_update[OF assms(1), of x] assms(2)
  by (simp add: rank_def assms(3,4))

lemma rank_step:
  assumes "step m pt th c = Some c'" and "inv_shape pt c" and "inv_spawn c"
  shows "rank c < rank c'"
  using assms(1)
proof (cases rule: stepE)
  case main
  from main(2) show ?thesis
  proof (cases rule: main_stepE)
    case (go i)
    have i: "i < length (workers c)" using assms(2) go(1) by (simp add: inv_shape_def)
    have "pc (workers c ! i) = NotStarted"
      using assms(3) go(1) i by (simp add: inv_spawn_def spawned_def)
    then have "rank_worker (workers c ! i) = 0" by (simp add: rank_worker_def)
    then have "sum_list (map rank_worker (workers c))
               \<le> sum_list (map rank_worker (workers c'))"
      using rank_worker_update[OF i,
          of "(workers c ! i)\<lparr>pc := (case m of CallExecute \<Rightarrow> AtLog
                                          | CallRollback \<Rightarrow> AtCall)\<rparr>"]
      by (simp add: go(2))
    then show ?thesis using go by (simp add: rank_def rank_main_def)
  next
    case (leave i)
    then have "i = length (workers c)" using assms(2) by (simp add: inv_shape_def)
    then show ?thesis using leave by (simp add: rank_def rank_main_def)
  qed (simp_all add: rank_def rank_main_def)
next
  case (worker j)
  from worker(2) show ?thesis
  proof (cases rule: worker_stepE)
    case atcall
    from atcall(1) show ?thesis
      by (rule rank_goto) (simp_all add: atcall(2,3) rank_worker_def split: call.splits)
  qed (rule rank_goto; simp add: rank_worker_def)+
qed

lemma rank_bound:
  assumes "inv_shape pt c"
  shows "rank c \<le> 12 * length (par_inner pt) + 2"
proof -
  have "sum_list (map rank_worker ws) \<le> 10 * length ws" for ws :: "worker list"
  proof (induction ws)
    case Nil
    show ?case by simp
  next
    case (Cons x xs)
    have "rank_worker x \<le> 10" by (cases "pc x") (simp_all add: rank_worker_def)
    with Cons show ?case by simp
  qed
  from this[of "workers c"] have "sum_list (map rank_worker (workers c))
      \<le> 10 * length (par_inner pt)"
    using assms by (simp add: inv_shape_def)
  moreover have "rank_main (length (workers c)) (mainpc c) \<le> 2 * length (par_inner pt) + 2"
    using assms by (cases "mainpc c") (simp_all add: inv_shape_def rank_main_def)
  ultimately show ?thesis by (simp add: rank_def)
qed

lemma rank_run:
  assumes "run m pt sched c = Some c'" and "invs m pt w c"
  shows "rank c + length sched \<le> rank c'"
  using assms
proof (induction sched arbitrary: c)
  case Nil
  then show ?case by simp
next
  case (Cons th ths)
  from Cons.prems(1) obtain c1 where c1: "step m pt th c = Some c1" "run m pt ths c1 = Some c'"
    by (cases "step m pt th c") simp_all
  have "inv_shape pt c" "inv_spawn c" using Cons.prems(2) by (simp_all add: invs_def)
  with c1(1) have "rank c < rank c1" by (rule rank_step)
  moreover have "rank c1 + length ths \<le> rank c'"
    using c1(2) invs_step[OF c1(1) Cons.prems(2)] by (rule Cons.IH)
  ultimately show ?case by simp
qed

lemma run_append:
  "run m pt (ths @ ths') c
   = (case run m pt ths c of None \<Rightarrow> None | Some c1 \<Rightarrow> run m pt ths' c1)"
  by (induction ths arbitrary: c) (simp_all split: option.splits)

text \<open>From every state of a run the scheduler can go on until the caller has returned.\<close>

lemma can_finish:
  assumes "invs m pt w c"
  shows "\<exists>ths c'. run m pt ths c = Some c' \<and> returned c'"
  using assms
proof (induction "12 * length (par_inner pt) + 2 - rank c" arbitrary: c rule: less_induct)
  case less
  show ?case
  proof (cases "returned c")
    case True
    then have "run m pt [] c = Some c \<and> returned c" by simp
    then show ?thesis by (intro exI)
  next
    case False
    from never_stuck[OF less.prems False] obtain th c1 where c1: "step m pt th c = Some c1"
      by (auto simp: enabled_def)
    have i1: "invs m pt w c1" using c1 less.prems by (rule invs_step)
    have "inv_shape pt c" "inv_spawn c" using less.prems by (simp_all add: invs_def)
    with c1 have "rank c < rank c1" by (rule rank_step)
    moreover have "rank c1 \<le> 12 * length (par_inner pt) + 2"
      using i1 by (intro rank_bound) (simp add: invs_def)
    ultimately have "12 * length (par_inner pt) + 2 - rank c1
                     < 12 * length (par_inner pt) + 2 - rank c"
      by simp
    from less.hyps[OF this i1] obtain ths c' where
      "run m pt ths c1 = Some c' \<and> returned c'" by (elim exE)
    then have "run m pt (th # ths) c = Some c' \<and> returned c'" using c1 by simp
    then show ?thesis by (intro exI)
  qed
qed

lemma run_can_finish:
  assumes "run m pt sched (start pt w) = Some c"
  shows "\<exists>more c'. run m pt (sched @ more) (start pt w) = Some c' \<and> returned c'"
proof -
  have "invs m pt w c" using assms invs_start by (rule invs_run)
  from can_finish[OF this] obtain ths c' where
    "run m pt ths c = Some c' \<and> returned c'" by (elim exE)
  then have "run m pt (sched @ ths) (start pt w) = Some c' \<and> returned c'"
    using assms by (simp add: run_append)
  then show ?thesis by (intro exI)
qed

text \<open>What the invariants say once the caller has returned.\<close>

lemma returned_summary:
  assumes "invs m pt w c" and "mainpc c = Returned r"
  shows "(\<forall>j<length (par_inner pt). pc (workers c ! j) = Exited)
         \<and> distinct (calls c) \<and> set (calls c) = {..<length (par_inner pt)}
         \<and> shared c = world_after m (map ((!) (par_inner pt)) (calls c)) w
         \<and> map (\<lambda>j. werr (workers c ! j)) (calls c)
             = results m (map ((!) (par_inner pt)) (calls c)) w
         \<and> distinct (stores c)
         \<and> set (stores c) = {j. j < length (par_inner pt) \<and> werr (workers c ! j) \<noteq> None}
         \<and> firstError c = (if stores c = [] then None else werr (workers c ! hd (stores c)))
         \<and> r = (case m of
                  CallExecute \<Rightarrow> if par_ignoreError pt then None else firstError c
                | CallRollback \<Rightarrow> firstError c)"
proof -
  have l: "length (workers c) = length (par_inner pt)"
    using assms(1) by (simp add: invs_def inv_shape_def)
  have e: "\<forall>j<length (workers c). pc (workers c ! j) = Exited"
    and r: "r = (case m of
                  CallExecute \<Rightarrow> if par_ignoreError pt then None else firstError c
                | CallRollback \<Rightarrow> firstError c)"
    using assms by (simp_all add: invs_def inv_ret_def)
  have c: "inv_calls m pt w c" and s: "inv_stores c" using assms(1) by (simp_all add: invs_def)
  have "set (calls c) = {..<length (par_inner pt)}"
    using c e l by (auto simp: inv_calls_def called_def)
  moreover have "set (stores c)
                 = {j. j < length (par_inner pt) \<and> werr (workers c ! j) \<noteq> None}"
    using s e l by (auto simp: inv_stores_def stored_def)
  ultimately show ?thesis
    using c s e l r by (simp add: inv_calls_def inv_stores_def)
qed


section \<open>Parallel: the claims\<close>

text \<open>
  C7. In every run of \<open>Parallel.Execute\<close>, under any schedule: when the caller has
  returned, every worker has returned before it, and the \<open>Execute\<close> of every child has
  been called exactly once, so that the outside state and the errors of the children are
  those of calling them one after the other in the order the scheduler let them be
  called. The value returned is \<open>nil\<close> if \<open>ignoreError\<close> is set; otherwise it is the
  error of the child whose worker was first through the critical section, and \<open>nil\<close>
  when no child failed; the errors of the workers that came later are dropped. As long
  as the caller has not returned some thread can take a step, no run has more than
  \<open>12 * N + 2\<close> steps, and every run can be continued until the caller has returned.
\<close>

theorem Parallel_Execute_first_error:
  assumes "Parallel_Execute pt w sched = Some c"
  shows "(\<forall>r. mainpc c = Returned r \<longrightarrow>
            (\<forall>j<length (par_inner pt). pc (workers c ! j) = Exited)
            \<and> distinct (calls c) \<and> set (calls c) = {..<length (par_inner pt)}
            \<and> shared c = world_after CallExecute (map ((!) (par_inner pt)) (calls c)) w
            \<and> map (\<lambda>j. werr (workers c ! j)) (calls c)
                = results CallExecute (map ((!) (par_inner pt)) (calls c)) w
            \<and> distinct (stores c)
            \<and> set (stores c)
                = {j. j < length (par_inner pt) \<and> werr (workers c ! j) \<noteq> None}
            \<and> r = (if par_ignoreError pt \<or> stores c = [] then None
                    else werr (workers c ! hd (stores c))))
         \<and> (\<not> returned c \<longrightarrow> (\<exists>th. enabled CallExecute pt c th))
         \<and> length sched \<le> 12 * length (par_inner pt) + 2
         \<and> (\<exists>more c'. Parallel_Execute pt w (sched @ more) = Some c' \<and> returned c')"
proof -
  have r: "run CallExecute pt sched (start pt w) = Some c"
    using assms by (simp add: Parallel_Execute_def)
  have i: "invs CallExecute pt w c"
    using r invs_start by (rule invs_run)
  have a: "\<not> returned c \<longrightarrow> (\<exists>th. enabled CallExecute pt c th)"
    using never_stuck[OF i] by simp
  have "rank (start pt w) + length sched \<le> rank c"
    using r invs_start by (rule rank_run)
  moreover have "rank c \<le> 12 * length (par_inner pt) + 2"
    using i by (intro rank_bound) (simp add: invs_def)
  ultimately have b: "length sched \<le> 12 * length (par_inner pt) + 2" by simp
  have "(\<forall>j<length (par_inner pt). pc (workers c ! j) = Exited)
        \<and> distinct (calls c) \<and> set (calls c) = {..<length (par_inner pt)}
        \<and> shared c = world_after CallExecute (map ((!) (par_inner pt)) (calls c)) w
        \<and> map (\<lambda>j. werr (workers c ! j)) (calls c)
            = results CallExecute (map ((!) (par_inner pt)) (calls c)) w
        \<and> distinct (stores c)
        \<and> set (stores c) = {j. j < length (par_inner pt) \<and> werr (workers c ! j) \<noteq> None}
        \<and> r' = (if par_ignoreError pt \<or> stores c = [] then None
                 else werr (workers c ! hd (stores c)))"
    if "mainpc c = Returned r'" for r'
    using returned_summary[OF i that] by simp
  moreover have "\<exists>more c'. Parallel_Execute pt w (sched @ more) = Some c' \<and> returned c'"
    using run_can_finish[OF r] by (simp add: Parallel_Execute_def)
  ultimately show ?thesis using a b by simp
qed

lemma Parallel_Execute_third_first:
  "Parallel_Execute hosts 0 third_first
   = Some \<lparr>mainpc = Returned (Some (Err ''timeout'')),
           workers = [\<lparr>pc = Exited, werr = None\<rparr>,
                      \<lparr>pc = Exited, werr = Some (Err ''disk full'')\<rparr>,
                      \<lparr>pc = Exited, werr = Some (Err ''timeout'')\<rparr>],
           wg = 0, mu = None, firstError = Some (Err ''timeout''), shared = 31,
           effects = [Infof ''+ [Parallel] - D'', PublishTaskBegin taskD,
                      PublishTaskFinish taskD (Some (Err ''timeout'')),
                      Infof ''+ [Parallel] - A'', PublishTaskBegin taskA,
                      PublishTaskFinish taskA None,
                      Infof ''+ [Parallel] - B'', PublishTaskBegin taskB,
                      PublishTaskFinish taskB (Some (Err ''disk full''))],
           calls = [2, 0, 1], stores = [2, 1]\<rparr>"
  by (simp add: Parallel_Execute_def hosts_def third_first_def start_def step_def main_step_def
        worker_step_def goto_def invoke_def Let_def isDisplayTask_def
        taskA_def taskB_def taskD_def)

lemma Parallel_Execute_under_way:
  "Parallel_Execute hosts 0 [Main, Main, Worker 0]
   = Some \<lparr>mainpc = AtAdd 1,
           workers = [\<lparr>pc = AtBegin, werr = None\<rparr>, \<lparr>pc = NotStarted, werr = None\<rparr>,
                      \<lparr>pc = NotStarted, werr = None\<rparr>],
           wg = 1, mu = None, firstError = None, shared = 0,
           effects = [Infof ''+ [Parallel] - A''], calls = [], stores = []\<rparr>"
  by (simp add: Parallel_Execute_def hosts_def start_def step_def main_step_def
        worker_step_def goto_def Let_def isDisplayTask_def taskA_def)

theorem Parallel_Execute_first_error_witness:
  "Parallel_Execute hosts 0 third_first = Some (the (Parallel_Execute hosts 0 third_first))
   \<and> mainpc (the (Parallel_Execute hosts 0 third_first)) = Returned (Some (Err ''timeout''))
   \<and> map pc (workers (the (Parallel_Execute hosts 0 third_first))) = [Exited, Exited, Exited]
   \<and> calls (the (Parallel_Execute hosts 0 third_first)) = [2, 0, 1]
   \<and> stores (the (Parallel_Execute hosts 0 third_first)) = [2, 1]
   \<and> map werr (workers (the (Parallel_Execute hosts 0 third_first)))
       = [None, Some (Err ''disk full''), Some (Err ''timeout'')]
   \<and> shared (the (Parallel_Execute hosts 0 third_first)) = 31
   \<and> length third_first \<le> 12 * length (par_inner hosts) + 2
   \<and> Parallel_Execute hosts 0 [Main, Main, Worker 0]
       = Some (the (Parallel_Execute hosts 0 [Main, Main, Worker 0]))
   \<and> \<not> returned (the (Parallel_Execute hosts 0 [Main, Main, Worker 0]))
   \<and> (\<exists>th. enabled CallExecute hosts (the (Parallel_Execute hosts 0 [Main, Main, Worker 0])) th)"
proof -
  have e: "Parallel_Execute hosts 0 third_first = Some (the (Parallel_Execute hosts 0 third_first))"
    by (simp add: Parallel_Execute_third_first)
  have f: "Parallel_Execute hosts 0 [Main, Main, Worker 0]
           = Some (the (Parallel_Execute hosts 0 [Main, Main, Worker 0]))"
    by (simp add: Parallel_Execute_under_way)
  have n: "\<not> returned (the (Parallel_Execute hosts 0 [Main, Main, Worker 0]))"
    by (simp add: Parallel_Execute_under_way returned_def)
  have "\<exists>th. enabled CallExecute hosts (the (Parallel_Execute hosts 0 [Main, Main, Worker 0])) th"
    using Parallel_Execute_first_error[OF f] n by simp
  moreover have "length third_first \<le> 12 * length (par_inner hosts) + 2"
    using Parallel_Execute_first_error[OF e] by simp
  ultimately show ?thesis
    using e f n by (simp add: Parallel_Execute_third_first)
qed


text \<open>
  C8. In every run of \<open>Parallel.Rollback\<close>, under any schedule: when the caller has
  returned, every worker has returned before it, and the \<open>Rollback\<close> of every child has
  been called exactly once. Nothing but the list of children decides which are rolled
  back: the method reads no trace of an earlier \<open>Execute\<close>. The value returned is the
  error of the child whose worker was first through the critical section, and \<open>nil\<close>
  when no rollback failed. As long as the caller has not returned some thread can take a
  step, no run has more than \<open>12 * N + 2\<close> steps, and every run can be continued until
  the caller has returned.
\<close>

theorem Parallel_Rollback_first_error:
  assumes "Parallel_Rollback pt w sched = Some c"
  shows "(\<forall>r. mainpc c = Returned r \<longrightarrow>
            (\<forall>j<length (par_inner pt). pc (workers c ! j) = Exited)
            \<and> distinct (calls c) \<and> set (calls c) = {..<length (par_inner pt)}
            \<and> shared c = world_after CallRollback (map ((!) (par_inner pt)) (calls c)) w
            \<and> map (\<lambda>j. werr (workers c ! j)) (calls c)
                = results CallRollback (map ((!) (par_inner pt)) (calls c)) w
            \<and> distinct (stores c)
            \<and> set (stores c)
                = {j. j < length (par_inner pt) \<and> werr (workers c ! j) \<noteq> None}
            \<and> r = (if stores c = [] then None else werr (workers c ! hd (stores c))))
         \<and> (\<not> returned c \<longrightarrow> (\<exists>th. enabled CallRollback pt c th))
         \<and> length sched \<le> 12 * length (par_inner pt) + 2
         \<and> (\<exists>more c'. Parallel_Rollback pt w (sched @ more) = Some c' \<and> returned c')"
proof -
  have r: "run CallRollback pt sched (start pt w) = Some c"
    using assms by (simp add: Parallel_Rollback_def)
  have i: "invs CallRollback pt w c"
    using r invs_start by (rule invs_run)
  have a: "\<not> returned c \<longrightarrow> (\<exists>th. enabled CallRollback pt c th)"
    using never_stuck[OF i] by simp
  have "rank (start pt w) + length sched \<le> rank c"
    using r invs_start by (rule rank_run)
  moreover have "rank c \<le> 12 * length (par_inner pt) + 2"
    using i by (intro rank_bound) (simp add: invs_def)
  ultimately have b: "length sched \<le> 12 * length (par_inner pt) + 2" by simp
  have "(\<forall>j<length (par_inner pt). pc (workers c ! j) = Exited)
        \<and> distinct (calls c) \<and> set (calls c) = {..<length (par_inner pt)}
        \<and> shared c = world_after CallRollback (map ((!) (par_inner pt)) (calls c)) w
        \<and> map (\<lambda>j. werr (workers c ! j)) (calls c)
            = results CallRollback (map ((!) (par_inner pt)) (calls c)) w
        \<and> distinct (stores c)
        \<and> set (stores c) = {j. j < length (par_inner pt) \<and> werr (workers c ! j) \<noteq> None}
        \<and> r' = (if stores c = [] then None else werr (workers c ! hd (stores c)))"
    if "mainpc c = Returned r'" for r'
    using returned_summary[OF i that] by simp
  moreover have "\<exists>more c'. Parallel_Rollback pt w (sched @ more) = Some c' \<and> returned c'"
    using run_can_finish[OF r] by (simp add: Parallel_Rollback_def)
  ultimately show ?thesis using a b by simp
qed

lemma Parallel_Rollback_second_stores_first:
  "Parallel_Rollback hosts 0 second_stores_first
   = Some \<lparr>mainpc = Returned (Some ErrUnsupportedRollback),
           workers = [\<lparr>pc = Exited, werr = None\<rparr>,
                      \<lparr>pc = Exited, werr = Some ErrUnsupportedRollback\<rparr>,
                      \<lparr>pc = Exited, werr = Some ErrNoExecutor\<rparr>],
           wg = 0, mu = None, firstError = Some ErrUnsupportedRollback, shared = 3100,
           effects = [], calls = [2, 1, 0], stores = [1, 2]\<rparr>"
  by (simp add: Parallel_Rollback_def hosts_def second_stores_first_def start_def step_def
        main_step_def worker_step_def goto_def invoke_def Let_def
        taskA_def taskB_def taskD_def)

lemma Parallel_Rollback_under_way:
  "Parallel_Rollback hosts 0 [Main, Main, Worker 0]
   = Some \<lparr>mainpc = AtAdd 1,
           workers = [\<lparr>pc = AtCheck, werr = None\<rparr>, \<lparr>pc = NotStarted, werr = None\<rparr>,
                      \<lparr>pc = NotStarted, werr = None\<rparr>],
           wg = 1, mu = None, firstError = None, shared = 100,
           effects = [], calls = [0], stores = []\<rparr>"
  by (simp add: Parallel_Rollback_def hosts_def start_def step_def main_step_def
        worker_step_def goto_def invoke_def Let_def taskA_def)

theorem Parallel_Rollback_first_error_witness:
  "Parallel_Rollback hosts 0 second_stores_first
     = Some (the (Parallel_Rollback hosts 0 second_stores_first))
   \<and> mainpc (the (Parallel_Rollback hosts 0 second_stores_first))
       = Returned (Some ErrUnsupportedRollback)
   \<and> map pc (workers (the (Parallel_Rollback hosts 0 second_stores_first)))
       = [Exited, Exited, Exited]
   \<and> calls (the (Parallel_Rollback hosts 0 second_stores_first)) = [2, 1, 0]
   \<and> stores (the (Parallel_Rollback hosts 0 second_stores_first)) = [1, 2]
   \<and> map werr (workers (the (Parallel_Rollback hosts 0 second_stores_first)))
       = [None, Some ErrUnsupportedRollback, Some ErrNoExecutor]
   \<and> shared (the (Parallel_Rollback hosts 0 second_stores_first)) = 3100
   \<and> length second_stores_first \<le> 12 * length (par_inner hosts) + 2
   \<and> Parallel_Rollback hosts 0 [Main, Main, Worker 0]
       = Some (the (Parallel_Rollback hosts 0 [Main, Main, Worker 0]))
   \<and> \<not> returned (the (Parallel_Rollback hosts 0 [Main, Main, Worker 0]))
   \<and> (\<exists>th. enabled CallRollback hosts
              (the (Parallel_Rollback hosts 0 [Main, Main, Worker 0])) th)"
proof -
  have e: "Parallel_Rollback hosts 0 second_stores_first
           = Some (the (Parallel_Rollback hosts 0 second_stores_first))"
    by (simp add: Parallel_Rollback_second_stores_first)
  have f: "Parallel_Rollback hosts 0 [Main, Main, Worker 0]
           = Some (the (Parallel_Rollback hosts 0 [Main, Main, Worker 0]))"
    by (simp add: Parallel_Rollback_under_way)
  have n: "\<not> returned (the (Parallel_Rollback hosts 0 [Main, Main, Worker 0]))"
    by (simp add: Parallel_Rollback_under_way returned_def)
  have "\<exists>th. enabled CallRollback hosts
               (the (Parallel_Rollback hosts 0 [Main, Main, Worker 0])) th"
    using Parallel_Rollback_first_error[OF f] n by simp
  moreover have "length second_stores_first \<le> 12 * length (par_inner hosts) + 2"
    using Parallel_Rollback_first_error[OF e] by simp
  ultimately show ?thesis
    using e f n by (simp add: Parallel_Rollback_second_stores_first)
qed


end
